theory Spec2Isabelle
  imports Main "HOL-Library.Sublist" "HOL-Library.AList"
begin

section \<open>Text primitives of the pre-prompt hook\<close>

text \<open>
  The hook (\<^verbatim>\<open>src/hooks/obsidian-preprompt.js\<close>, the last of the three versions
  concatenated in that file, lines 421 to 1053) works on JavaScript strings. A string is
  modelled as a \<^typ>\<open>string\<close>, one \<^typ>\<open>char\<close> per character; ASCII text is represented
  exactly and \<open>length\<close> is the \<^verbatim>\<open>.length\<close> of the source. White space is the
  ASCII white space that \<^verbatim>\<open>trim()\<close> and the regular expression class \<^verbatim>\<open>\s\<close>
  accept; the three emoji keywords of the constraint extractor are written as their
  UTF-8 bytes.
\<close>

definition isSpace :: "char \<Rightarrow> bool" where
  "isSpace c \<longleftrightarrow> c \<in> {CHR '' '', CHR 0x09, CHR ''\<newline>'', CHR 0x0B, CHR 0x0C, CHR 0x0D}"

text \<open>\<^verbatim>\<open>s.trim()\<close>\<close>

definition trim :: "string \<Rightarrow> string" where
  "trim s = rev (dropWhile isSpace (rev (dropWhile isSpace s)))"

text \<open>\<^verbatim>\<open>s.replace(/\r\n?/g, '\n')\<close>\<close>

fun normalizeNewlines :: "string \<Rightarrow> string" where
  "normalizeNewlines [] = []"
| "normalizeNewlines (c # cs) =
     (if c = CHR 0x0D then
        (case cs of
           [] \<Rightarrow> [CHR ''\<newline>'']
         | d # ds \<Rightarrow> if d = CHR ''\<newline>'' then CHR ''\<newline>'' # normalizeNewlines ds
                    else CHR ''\<newline>'' # normalizeNewlines cs)
      else c # normalizeNewlines cs)"

text \<open>\<^verbatim>\<open>s.split('\n')\<close>: the empty string splits into one empty line.\<close>

fun splitLines :: "string \<Rightarrow> string list" where
  "splitLines [] = [[]]"
| "splitLines (c # cs) =
     (if c = CHR ''\<newline>'' then [] # splitLines cs
      else (case splitLines cs of
              [] \<Rightarrow> [[c]]
            | l # ls \<Rightarrow> (c # l) # ls))"

text \<open>\<^verbatim>\<open>xs.join(sep)\<close>\<close>

fun joinWith :: "string \<Rightarrow> string list \<Rightarrow> string" where
  "joinWith sep [] = []"
| "joinWith sep [x] = x"
| "joinWith sep (x # y # ys) = x @ sep @ joinWith sep (y # ys)"

text \<open>The line break.\<close>

definition nl :: string where
  "nl = [CHR ''\<newline>'']"

text \<open>\<^verbatim>\<open>s.includes(t)\<close>\<close>

definition includesStr :: "string \<Rightarrow> string \<Rightarrow> bool" where
  "includesStr s t \<longleftrightarrow> sublist t s"

text \<open>\<^verbatim>\<open>Array.from(new Set(xs))\<close>: the first occurrence of every element, in order.\<close>

fun uniqueFrom :: "string set \<Rightarrow> string list \<Rightarrow> string list" where
  "uniqueFrom seen [] = []"
| "uniqueFrom seen (x # xs) =
     (if x \<in> seen then uniqueFrom seen xs else x # uniqueFrom (insert x seen) xs)"

definition unique :: "string list \<Rightarrow> string list" where
  "unique xs = uniqueFrom {} xs"

section \<open>Token estimate and token trimming\<close>

definition MAX_SNAPSHOT_CHARS :: nat where
  "MAX_SNAPSHOT_CHARS = 12000"

definition estimateTokens :: "string \<Rightarrow> int" where
  "estimateTokens text = (int (length text) + 3) div 4"

text \<open>\<^verbatim>\<open>Math.ceil(MAX_SNAPSHOT_CHARS / 4)\<close>\<close>

definition MAX_SNAPSHOT_TOKENS :: int where
  "MAX_SNAPSHOT_TOKENS = (int MAX_SNAPSHOT_CHARS + 3) div 4"

text \<open>
  \<^verbatim>\<open>Math.floor(MAX_SNAPSHOT_TOKENS * 0.4)\<close> and \<^verbatim>\<open>Math.floor(MAX_SNAPSHOT_TOKENS * 0.6)\<close>:
  in double precision \<open>3000 * 0.4\<close> and \<open>3000 * 0.6\<close> round to 1200 and 1800.
\<close>

definition GOVERNANCE_TOKEN_BUDGET :: int where
  "GOVERNANCE_TOKEN_BUDGET = (MAX_SNAPSHOT_TOKENS * 4) div 10"

definition DAILY_TOKEN_BUDGET :: int where
  "DAILY_TOKEN_BUDGET = (MAX_SNAPSHOT_TOKENS * 6) div 10"

text \<open>
  The loop of \<^verbatim>\<open>trimTextToTokenBudget\<close>: lines are kept from the start and the loop
  stops (\<^verbatim>\<open>break\<close>) at the first line that does not fit.
\<close>

fun keepLines :: "string list \<Rightarrow> int \<Rightarrow> int \<Rightarrow> string list" where
  "keepLines [] tokenBudget used = []"
| "keepLines (line # rest) tokenBudget used =
     (let cost = estimateTokens (line @ nl)
      in if used + cost > tokenBudget then []
         else line # keepLines rest tokenBudget (used + cost))"

definition trimTextToTokenBudget :: "string \<Rightarrow> int \<Rightarrow> string" where
  "trimTextToTokenBudget text tokenBudget =
     (let normalized = trim (normalizeNewlines text)
      in if normalized = [] \<or> tokenBudget \<le> 0 then []
         else if estimateTokens normalized \<le> tokenBudget then normalized
         else trim (joinWith nl (keepLines (splitLines normalized) tokenBudget 0)))"

definition separator :: string where
  "separator = nl @ nl @ ''---'' @ nl @ nl"

definition buildTokenAwareSnapshot :: "string \<Rightarrow> string \<Rightarrow> int \<Rightarrow> string" where
  "buildTokenAwareSnapshot deltaText fullSnapshot tokenBudget =
     (let deltaBlock =
            (if deltaText \<noteq> []
             then trimTextToTokenBudget (''Since you last spoke:'' @ nl @ deltaText) tokenBudget
             else []);
          parts1 = (if deltaBlock \<noteq> [] then [deltaBlock] else []);
          remaining = (if deltaBlock \<noteq> [] then tokenBudget - estimateTokens deltaBlock else tokenBudget);
          summaryBlock =
            (if fullSnapshot \<noteq> [] \<and> remaining > 0
             then trimTextToTokenBudget fullSnapshot remaining else []);
          parts = parts1 @ (if summaryBlock \<noteq> [] then [summaryBlock] else [])
      in trimTextToTokenBudget (joinWith separator parts) tokenBudget)"

section \<open>The structural truncator\<close>

text \<open>\<^verbatim>\<open>/^#{1,6}\s/.test(line)\<close>: one to six hashes, then a white-space character.\<close>

definition isHeadingLine :: "string \<Rightarrow> bool" where
  "isHeadingLine line =
     (let k = length (takeWhile (\<lambda>c. c = CHR ''#'') line);
          rest = dropWhile (\<lambda>c. c = CHR ''#'') line
      in 1 \<le> k \<and> k \<le> 6 \<and> (case rest of [] \<Rightarrow> False | c # _ \<Rightarrow> isSpace c))"

text \<open>\<^verbatim>\<open>findHeadingContext\<close>: the heading lines at indices \<open>0 .. startIdx\<close>.\<close>

definition findHeadingContext :: "string list \<Rightarrow> nat \<Rightarrow> string list" where
  "findHeadingContext lines startIdx = filter isHeadingLine (take (Suc startIdx) lines)"

text \<open>
  The first loop of \<^verbatim>\<open>clipFromTailByLine\<close>, over the indexed lines from the last to
  the first: a line that does not fit is passed over (\<^verbatim>\<open>continue\<close>) and the scan
  goes on with the lines before it. The result is \<^verbatim>\<open>picked\<close>, in the order pushed.
\<close>

fun pickFromTail :: "(nat \<times> string) list \<Rightarrow> nat \<Rightarrow> nat \<Rightarrow> nat list" where
  "pickFromTail [] maxChars used = []"
| "pickFromTail ((i, candidate) # rest) maxChars used =
     (let cost = length candidate + 1
      in if used + cost > maxChars then pickFromTail rest maxChars used
         else i # pickFromTail rest maxChars (used + cost))"

definition pickedIndices :: "string list \<Rightarrow> nat \<Rightarrow> nat list" where
  "pickedIndices lines maxChars =
     sort (pickFromTail (rev (zip [0 ..< length lines] lines)) maxChars 0)"

text \<open>The two loops that fill \<^verbatim>\<open>result\<close> under the \<^verbatim>\<open>seen\<close> set.\<close>

fun pushHeadings :: "string list \<Rightarrow> string set \<Rightarrow> string list \<times> string set" where
  "pushHeadings [] seen = ([], seen)"
| "pushHeadings (heading # rest) seen =
     (if heading \<notin> seen
      then (let (r, s) = pushHeadings rest (insert heading seen) in (heading # r, s))
      else pushHeadings rest seen)"

fun pushLines :: "string list \<Rightarrow> string set \<Rightarrow> string list" where
  "pushLines [] seen = []"
| "pushLines (line # rest) seen =
     (if length line = 0 \<or> line \<notin> seen
      then line # pushLines rest (insert line seen)
      else pushLines rest seen)"

definition clipFromTailByLine :: "string list \<Rightarrow> nat \<Rightarrow> string list" where
  "clipFromTailByLine lines maxChars =
     (let picked = pickedIndices lines maxChars
      in if picked = [] then []
         else (let startIdx = hd picked;
                   headingContext = findHeadingContext lines startIdx;
                   (result, seen) = pushHeadings headingContext {}
               in result @ pushLines (map (\<lambda>idx. lines ! idx) picked) seen))"

text \<open>\<^verbatim>\<open>extractTaskLines\<close>: the lines matching \<^verbatim>\<open>/^\s*- \[( |x|X)\]\s/\<close>.\<close>

definition isTaskLine :: "string \<Rightarrow> bool" where
  "isTaskLine line =
     (case dropWhile isSpace line of
        a # b # c # d # e # f # _ \<Rightarrow>
          a = CHR ''-'' \<and> b = CHR '' '' \<and> c = CHR ''['' \<and>
          (d = CHR '' '' \<or> d = CHR ''x'' \<or> d = CHR ''X'') \<and> e = CHR '']'' \<and> isSpace f
      | _ \<Rightarrow> False)"

definition extractTaskLines :: "string list \<Rightarrow> string list" where
  "extractTaskLines lines = filter isTaskLine lines"

text \<open>
  \<^verbatim>\<open>text.match(/!?\[\[[^\]]+\]\]/g)\<close>. \<open>wikilinkAt s\<close> is the match that starts at the
  head of \<open>s\<close>, if there is one: an optional \<open>!\<close>, two opening brackets, the longest
  non-empty run of characters other than \<open>]\<close>, two closing brackets. The scan resumes
  after a match, and one character further where there is none.
\<close>

definition wikilinkAt :: "string \<Rightarrow> string option" where
  "wikilinkAt s =
     (let bang = (case s of c # _ \<Rightarrow> c = CHR ''!'' | [] \<Rightarrow> False);
          s1 = (if bang then tl s else s)
      in case s1 of
           a # b # s2 \<Rightarrow>
             if a = CHR ''['' \<and> b = CHR ''['' then
               (let body = takeWhile (\<lambda>c. c \<noteq> CHR '']'') s2;
                    s3 = dropWhile (\<lambda>c. c \<noteq> CHR '']'') s2
                in if body \<noteq> [] \<and> take 2 s3 = '']]''
                   then Some ((if bang then ''!'' else []) @ ''[['' @ body @ '']]'')
                   else None)
             else None
         | _ \<Rightarrow> None)"

function wikilinkMatches :: "string \<Rightarrow> string list" where
  "wikilinkMatches [] = []"
| "wikilinkMatches (c # cs) =
     (case wikilinkAt (c # cs) of
        Some m \<Rightarrow> m # wikilinkMatches (drop (length m) (c # cs))
      | None \<Rightarrow> wikilinkMatches cs)"
  by pat_completeness auto
termination
proof (relation "measure length")
  fix c :: char and cs m
  assume "wikilinkAt (c # cs) = Some m"
  then have "m \<noteq> []"
    by (auto simp: wikilinkAt_def Let_def split: list.splits if_splits)
  then show "(drop (length m) (c # cs), c # cs) \<in> measure length"
    by (cases m) auto
qed auto

definition extractWikilinks :: "string \<Rightarrow> string list" where
  "extractWikilinks text = unique (wikilinkMatches text)"

text \<open>
  \<^verbatim>\<open>text.match(/(^|\s)(#[A-Za-z0-9_\/-]+)/gim)\<close>, every match trimmed. With the
  \<^verbatim>\<open>m\<close> flag \<^verbatim>\<open>^\<close> holds at the start of the text and after a line terminator.
  \<open>tagRun s\<close> is the hash and its label at the head of \<open>s\<close>.
\<close>

definition isTagChar :: "char \<Rightarrow> bool" where
  "isTagChar c \<longleftrightarrow>
     c \<in> set (''ABCDEFGHIJKLMNOPQRSTUVWXYZ'' @ ''abcdefghijklmnopqrstuvwxyz'' @ ''0123456789'' @ ''_/-'')"

definition tagRun :: "string \<Rightarrow> string option" where
  "tagRun s =
     (case s of
        h # r \<Rightarrow> if h = CHR ''#'' \<and> takeWhile isTagChar r \<noteq> []
                 then Some (h # takeWhile isTagChar r) else None
      | [] \<Rightarrow> None)"

definition isLineTerminator :: "char \<Rightarrow> bool" where
  "isLineTerminator c \<longleftrightarrow> c = CHR ''\<newline>'' \<or> c = CHR 0x0D"

text \<open>\<open>atLineStart\<close> says whether \<^verbatim>\<open>^\<close> holds at the head of the remaining text.\<close>

function tagMatches :: "bool \<Rightarrow> string \<Rightarrow> string list" where
  "tagMatches atLineStart [] = []"
| "tagMatches atLineStart (c # cs) =
     (case (if atLineStart then tagRun (c # cs) else None) of
        Some t \<Rightarrow> trim t # tagMatches False (drop (length t) (c # cs))
      | None \<Rightarrow>
          (case (if isSpace c then tagRun cs else None) of
             Some t \<Rightarrow> trim (c # t) # tagMatches False (drop (length t) cs)
           | None \<Rightarrow> tagMatches (isLineTerminator c) cs))"
  by pat_completeness auto
termination
proof (relation "measure (\<lambda>(b, s). length s)")
  fix atLineStart :: bool and c :: char and cs t
  assume "(if atLineStart then tagRun (c # cs) else None) = Some t"
  then have "t \<noteq> []"
    by (auto simp: tagRun_def split: if_splits list.splits)
  then show "((False, drop (length t) (c # cs)), (atLineStart, c # cs)) \<in> measure (\<lambda>(b, s). length s)"
    by (cases t) auto
qed auto

definition extractTags :: "string \<Rightarrow> string list" where
  "extractTags text = unique (tagMatches True text)"

text \<open>
  \<^verbatim>\<open>extractCommentLines\<close>. \<open>countMarkers\<close> is \<^verbatim>\<open>(line.match(/%%/g) || []).length\<close>,
  the number of non-overlapping \<^verbatim>\<open>%%\<close> from the left.
\<close>

fun countMarkers :: "string \<Rightarrow> nat" where
  "countMarkers (a # b # cs) =
     (if a = CHR ''%'' \<and> b = CHR ''%'' then Suc (countMarkers cs) else countMarkers (b # cs))"
| "countMarkers _ = 0"

fun commentLoop :: "string list \<Rightarrow> bool \<Rightarrow> string list" where
  "commentLoop [] inBlockComment = []"
| "commentLoop (line # rest) inBlockComment =
     (if includesStr line ''%%''
      then line # commentLoop rest
             (if countMarkers line mod 2 = 1 then \<not> inBlockComment else inBlockComment)
      else if inBlockComment then line # commentLoop rest inBlockComment
      else commentLoop rest inBlockComment)"

definition extractCommentLines :: "string list \<Rightarrow> string list" where
  "extractCommentLines lines = commentLoop lines False"

text \<open>
  The final guard of \<^verbatim>\<open>buildObsidianSafeSnapshot\<close>: the lines of the assembled text
  from the start, each kept when it still fits and passed over otherwise.
\<close>

fun boundedLines :: "string list \<Rightarrow> nat \<Rightarrow> nat \<Rightarrow> string list" where
  "boundedLines [] maxChars used = []"
| "boundedLines (line # rest) maxChars used =
     (let cost = length line + 1
      in if used + cost > maxChars then boundedLines rest maxChars used
         else line # boundedLines rest maxChars (used + cost))"

definition truncationMarker :: string where
  "truncationMarker = ''[Truncated safely by line boundaries to preserve Obsidian syntax]''"

text \<open>
  \<open>assembleSnapshot\<close> is the part of \<^verbatim>\<open>buildObsidianSafeSnapshot\<close> that builds
  \<^verbatim>\<open>assembled\<close> from the trimmed text once it is over the budget;
  \<^verbatim>\<open>Math.floor(maxChars * 0.65)\<close> is \<open>65 * maxChars div 100\<close>.
\<close>

definition assembleSnapshot :: "string \<Rightarrow> nat \<Rightarrow> string" where
  "assembleSnapshot text maxChars =
     (let lines = splitLines text;
          clippedLines = clipFromTailByLine lines (65 * maxChars div 100);
          allTasks = extractTaskLines lines;
          allLinks = extractWikilinks text;
          allTags = extractTags text;
          commentLines = extractCommentLines lines;
          parts = [''## Recent Snapshot'', trim (joinWith nl clippedLines)]
            @ (if allTasks \<noteq> [] then [''## Tasks (Preserved)'', joinWith nl allTasks] else [])
            @ (if allLinks \<noteq> [] then [''## Wikilinks (Graph Integrity)'', joinWith '' '' allLinks] else [])
            @ (if allTags \<noteq> [] then [''## Tags'', joinWith '' '' allTags] else [])
            @ (if commentLines \<noteq> [] then [''## Comments'', joinWith nl commentLines] else [])
      in trim (joinWith (nl @ nl) (filter (\<lambda>p. p \<noteq> []) parts)))"

definition buildObsidianSafeSnapshot :: "string \<Rightarrow> nat \<Rightarrow> string" where
  "buildObsidianSafeSnapshot raw maxChars =
     (let text = trim (normalizeNewlines raw)
      in if text = [] then []
         else if length text \<le> maxChars then text
         else (let assembled = assembleSnapshot text maxChars
               in if length assembled \<le> maxChars then assembled
                  else trim (joinWith nl (boundedLines (splitLines assembled) maxChars 0))
                         @ nl @ nl @ truncationMarker))"

section \<open>Constraint extraction from governance documents\<close>

text \<open>\<^verbatim>\<open>toLowerCase()\<close> and \<^verbatim>\<open>toUpperCase()\<close> on ASCII letters.\<close>

definition upperLetters :: string where
  "upperLetters = ''ABCDEFGHIJKLMNOPQRSTUVWXYZ''"

definition lowerLetters :: string where
  "lowerLetters = ''abcdefghijklmnopqrstuvwxyz''"

definition toLowerCase :: "string \<Rightarrow> string" where
  "toLowerCase s =
     map (\<lambda>c. case map_of (zip upperLetters lowerLetters) c of Some d \<Rightarrow> d | None \<Rightarrow> c) s"

definition toUpperCase :: "string \<Rightarrow> string" where
  "toUpperCase s =
     map (\<lambda>c. case map_of (zip lowerLetters upperLetters) c of Some d \<Rightarrow> d | None \<Rightarrow> c) s"

definition criticalKeywords :: "string list" where
  "criticalKeywords =
     [''boundaries'', ''protocol'', ''critical'', ''violation'', ''safety'', ''security'',
      ''never'', ''always'', ''mandatory'', ''prohibited'', ''banned'', ''ban'', ''penalty'',
      ''consequence'', ''warning'',
      [CHR 0xE2, CHR 0x9A, CHR 0xA0, CHR 0xEF, CHR 0xB8, CHR 0x8F],
      [CHR 0xF0, CHR 0x9F, CHR 0x9A, CHR 0xAB],
      [CHR 0xE2, CHR 0x9D, CHR 0x8C]]"

text \<open>\<^verbatim>\<open>criticalKeywords.some(kw => lowerLine.includes(kw))\<close>\<close>

definition hasCriticalKeyword :: "string \<Rightarrow> bool" where
  "hasCriticalKeyword line = list_ex (includesStr (toLowerCase line)) criticalKeywords"

text \<open>
  \<^verbatim>\<open>line.match(/^(#{1,6})\s+(.+)$/)\<close>, giving the second group. After the hashes
  \<^verbatim>\<open>\s+\<close> takes the longest run of white space that leaves a character for
  \<^verbatim>\<open>.+\<close>, and \<^verbatim>\<open>.\<close> matches no line terminator (a carriage return can be left in
  a line, the text is split at \<^verbatim>\<open>\n\<close> only).
\<close>

definition headingMatch :: "string \<Rightarrow> string option" where
  "headingMatch line =
     (let k = length (takeWhile (\<lambda>c. c = CHR ''#'') line);
          s = dropWhile (\<lambda>c. c = CHR ''#'') line;
          j = min (length (takeWhile isSpace s)) (length s - 1)
      in if 1 \<le> k \<and> k \<le> 6 \<and> 1 \<le> j \<and> \<not> list_ex isLineTerminator (drop j s)
         then Some (drop j s) else None)"

text \<open>\<^verbatim>\<open>line.match(/^\s*[-*]\s+/i)\<close>\<close>

definition isBulletLine :: "string \<Rightarrow> bool" where
  "isBulletLine line =
     (case dropWhile isSpace line of
        c # d # _ \<Rightarrow> (c = CHR ''-'' \<or> c = CHR ''*'') \<and> isSpace d
      | _ \<Rightarrow> False)"

record scanState =
  criticalSections :: "(string option \<times> string) list"
  currentSection :: "string option"
  currentContent :: "string list"
  inCriticalSection :: bool

text \<open>\<open>pushSection\<close>: the section under way is saved when it is critical and not empty.\<close>

definition pushSection :: "scanState \<Rightarrow> (string option \<times> string) list" where
  "pushSection st =
     (if inCriticalSection st \<and> currentContent st \<noteq> []
      then criticalSections st @ [(currentSection st, trim (joinWith nl (currentContent st)))]
      else criticalSections st)"

text \<open>One turn of the first loop of \<^verbatim>\<open>extractCriticalConstraints\<close>.\<close>

definition scanLine :: "scanState \<Rightarrow> string \<Rightarrow> scanState" where
  "scanLine st line =
     (case headingMatch line of
        Some title \<Rightarrow>
          \<lparr>criticalSections = pushSection st, currentSection = Some title,
           currentContent = [line], inCriticalSection = hasCriticalKeyword line\<rparr>
      | None \<Rightarrow>
          (let st1 = (if isBulletLine line \<and> hasCriticalKeyword line \<and> \<not> inCriticalSection st
                      then st\<lparr>currentSection := Some ''Critical Rules'', currentContent := [],
                              inCriticalSection := True\<rparr>
                      else st)
           in if inCriticalSection st1
              then st1\<lparr>currentContent := currentContent st1 @ [line]\<rparr>
              else st1))"

definition initialScan :: scanState where
  "initialScan = \<lparr>criticalSections = [], currentSection = None, currentContent = [],
                   inCriticalSection = False\<rparr>"

definition scanSections :: "string list \<Rightarrow> (string option \<times> string) list" where
  "scanSections lines = pushSection (foldl scanLine initialScan lines)"

text \<open>The second loop: the bullets that hold a strong keyword, trimmed.\<close>

definition startsWith :: "string \<Rightarrow> string \<Rightarrow> bool" where
  "startsWith s p \<longleftrightarrow> prefix p s"

definition isStrongConstraint :: "string \<Rightarrow> bool" where
  "isStrongConstraint line =
     (let upperLine = toUpperCase line
      in (includesStr upperLine ''NEVER'' \<or> includesStr upperLine ''ALWAYS''
            \<or> includesStr upperLine ''MANDATORY'')
         \<and> (startsWith (trim line) ''-'' \<or> startsWith (trim line) ''*''))"

definition strongConstraints :: "string list \<Rightarrow> string list" where
  "strongConstraints lines = map trim (filter isStrongConstraint lines)"

definition extractCriticalConstraints :: "string \<Rightarrow> string \<Rightarrow> string" where
  "extractCriticalConstraints text filename =
     (if text = [] then []
      else (let lines = splitLines text;
                sections = scanSections lines;
                strong = strongConstraints lines;
                parts = map snd sections
                  @ (if strong \<noteq> [] then ''## Absolute Constraints'' # unique strong else [])
            in trim (joinWith (nl @ nl) parts)))"

definition fileLabels :: "(string \<times> string) list" where
  "fileLabels =
     [(''SOUL.md'', ''Behavioral Constraints (SOUL)''),
      (''MEMORY.md'', ''Long-Term Rules & Protocols (MEMORY)''),
      (''AGENTS.md'', ''Operational Protocols (AGENTS)''),
      (''TOOLS.md'', ''Tool Usage Patterns (TOOLS)'')]"

text \<open>\<^verbatim>\<open>buildGovernanceContext\<close>, over the entries of the object in their order.\<close>

fun governanceSections :: "(string \<times> string) list \<Rightarrow> string list" where
  "governanceSections [] = []"
| "governanceSections ((filename, content) # rest) =
     (if content = [] then governanceSections rest
      else (let critical = extractCriticalConstraints content filename
            in if critical \<noteq> []
               then (''## '' @ (case map_of fileLabels filename of Some l \<Rightarrow> l | None \<Rightarrow> filename)
                      @ nl @ critical) # governanceSections rest
               else governanceSections rest))"

definition buildGovernanceContext :: "(string \<times> string) list \<Rightarrow> string" where
  "buildGovernanceContext governanceFiles = joinWith (nl @ nl) (governanceSections governanceFiles)"

section \<open>The unified snapshot\<close>

definition govHeader :: string where
  "govHeader = ''# Behavioral Governance'' @ nl"

definition dailyHeader :: string where
  "dailyHeader = ''# Today'' @ [CHR 0x27] @ ''s Context (from daily note)'' @ nl"

text \<open>
  The two blocks of \<^verbatim>\<open>buildUnifiedSnapshot\<close>. \<open>governanceBlock\<close> gives the trimmed
  governance text, empty when nothing is pushed; \<open>remainingAfterGovernance\<close> is
  \<^verbatim>\<open>remaining\<close> after the first block; \<open>dailyBlock\<close> gives the trimmed daily text.
\<close>

definition governanceBlock :: "string \<Rightarrow> string" where
  "governanceBlock governanceContext =
     (if governanceContext \<noteq> []
      then trimTextToTokenBudget governanceContext
             (min (estimateTokens governanceContext) GOVERNANCE_TOKEN_BUDGET)
      else [])"

definition remainingAfterGovernance :: "string \<Rightarrow> int \<Rightarrow> int" where
  "remainingAfterGovernance governanceContext tokenBudget =
     (let trimmedGov = governanceBlock governanceContext
      in if trimmedGov \<noteq> [] then tokenBudget - estimateTokens (govHeader @ trimmedGov)
         else tokenBudget)"

definition dailyBlock :: "string \<Rightarrow> int \<Rightarrow> string" where
  "dailyBlock dailyText remaining =
     (if dailyText \<noteq> [] \<and> remaining > 0
      then trimTextToTokenBudget dailyText (min remaining DAILY_TOKEN_BUDGET)
      else [])"

definition buildUnifiedSnapshot :: "string \<Rightarrow> string \<Rightarrow> int \<Rightarrow> string" where
  "buildUnifiedSnapshot dailyText governanceContext tokenBudget =
     (let trimmedGov = governanceBlock governanceContext;
          remaining = remainingAfterGovernance governanceContext tokenBudget;
          trimmedDaily = dailyBlock dailyText remaining;
          parts = (if trimmedGov \<noteq> [] then [govHeader @ trimmedGov] else [])
            @ (if trimmedDaily \<noteq> [] then [dailyHeader @ trimmedDaily] else [])
      in trim (joinWith separator parts))"

section \<open>The persisted state and the handler\<close>

text \<open>
  The state file holds JSON. Numbers are the integers (the hook writes line counts only).
  An object is the list of its entries in order.
\<close>

datatype json =
    JNull
  | JBool bool
  | JNum int
  | JStr string
  | JArr "json list"
  | JObj "(string \<times> json) list"

text \<open>JavaScript truthiness and \<^verbatim>\<open>typeof v === 'object'\<close>.\<close>

fun truthy :: "json \<Rightarrow> bool" where
  "truthy JNull = False"
| "truthy (JBool b) = b"
| "truthy (JNum n) = (n \<noteq> 0)"
| "truthy (JStr s) = (s \<noteq> [])"
| "truthy (JArr xs) = True"
| "truthy (JObj kvs) = True"

fun typeofObject :: "json \<Rightarrow> bool" where
  "typeofObject JNull = True"
| "typeofObject (JArr xs) = True"
| "typeofObject (JObj kvs) = True"
| "typeofObject _ = False"

text \<open>
  \<^verbatim>\<open>v[key]\<close> and \<^verbatim>\<open>v.key\<close> for the keys the handler reads (a date, \<^verbatim>\<open>combinedHash\<close>,
  \<^verbatim>\<open>snapshot\<close>, \<^verbatim>\<open>lastLineCount\<close>): \<open>None\<close> is \<^verbatim>\<open>undefined\<close>, which is what an array,
  a string, a number and a boolean give for them.
\<close>

fun getProp :: "json \<Rightarrow> string \<Rightarrow> json option" where
  "getProp (JObj kvs) key = map_of kvs key"
| "getProp _ key = None"

text \<open>
  \<^verbatim>\<open>state[key] = v\<close> as \<^verbatim>\<open>JSON.stringify\<close> sees it afterwards: an object gets or
  replaces the entry; a property set on an array is not serialised.
\<close>

fun setProp :: "json \<Rightarrow> string \<Rightarrow> json \<Rightarrow> json" where
  "setProp (JObj kvs) key v = JObj (AList.update key v kvs)"
| "setProp j key v = j"

datatype error = Error string

text \<open>
  The state file as the hook meets it: absent, present but failing to be read, holding
  text that \<^verbatim>\<open>JSON.parse\<close> rejects, or holding the text of a JSON value.
\<close>

datatype fileStatus = Absent | Unreadable | Malformed | Wellformed json

definition existsSync :: "fileStatus \<Rightarrow> bool" where
  "existsSync f \<longleftrightarrow> f \<noteq> Absent"

text \<open>\<^verbatim>\<open>JSON.parse(fs.readFileSync(statePath, 'utf8'))\<close>\<close>

fun readAndParse :: "fileStatus \<Rightarrow> error + json" where
  "readAndParse Absent = Inl (Error ''ENOENT'')"
| "readAndParse Unreadable = Inl (Error ''read failed'')"
| "readAndParse Malformed = Inl (Error ''SyntaxError'')"
| "readAndParse (Wellformed j) = Inr j"

definition readBootstrapState :: "fileStatus \<Rightarrow> error + json" where
  "readBootstrapState f =
     (if \<not> existsSync f then Inr (JObj [])
      else (case readAndParse f of
              Inl e \<Rightarrow> Inr (JObj [])
            | Inr parsed \<Rightarrow> Inr (if truthy parsed \<and> typeofObject parsed then parsed else JObj [])))"

text \<open>\<^verbatim>\<open>writeBootstrapState\<close>: \<open>writeError\<close> is the failure of \<^verbatim>\<open>fs.writeFileSync\<close>, if any.\<close>

definition writeBootstrapState :: "error option \<Rightarrow> json \<Rightarrow> error + fileStatus" where
  "writeBootstrapState writeError state =
     (case writeError of Some e \<Rightarrow> Inl e | None \<Rightarrow> Inr (Wellformed state))"

text \<open>\<^verbatim>\<open>xs.slice(start)\<close>\<close>

definition jsSlice :: "int \<Rightarrow> 'a list \<Rightarrow> 'a list" where
  "jsSlice start xs =
     (if start < 0 then drop (nat (max (int (length xs) + start) 0)) xs
      else drop (nat start) xs)"

text \<open>The string a value gives when \<^verbatim>\<open>join\<close> concatenates it.\<close>

function showNat :: "nat \<Rightarrow> string" where
  "showNat n =
     (if n < 10 then [''0123456789'' ! n]
      else showNat (n div 10) @ [''0123456789'' ! (n mod 10)])"
  by pat_completeness auto
termination
  by (relation "measure id") auto

fun jsToString :: "json \<Rightarrow> string" where
  "jsToString JNull = ''null''"
| "jsToString (JBool b) = (if b then ''true'' else ''false'')"
| "jsToString (JNum n) = (if n < 0 then ''-'' @ showNat (nat (- n)) else showNat (nat n))"
| "jsToString (JStr s) = s"
| "jsToString (JArr xs) =
     joinWith '','' (map (\<lambda>x. if x = JNull then [] else jsToString x) xs)"
| "jsToString (JObj kvs) = ''[object Object]''"

text \<open>
  What one invocation meets: the event type, the date and the clock, the state file and
  whether it can be written, the outcome of the command-line read and of the file
  fallback, the governance files read, and SHA-256 (hex digest).
\<close>

record env =
  eventType :: string
  today :: string
  nowIso :: string
  stateFile :: fileStatus
  writeError :: "error option"
  cliOutput :: "error + string"
  fallbackOutput :: "error + string"
  governanceFiles :: "(string \<times> string) list"
  computeSha256 :: "string \<Rightarrow> string"

text \<open>The inputs of the cache test, computed before it.\<close>

definition governanceContextOf :: "env \<Rightarrow> string" where
  "governanceContextOf e = buildGovernanceContext (governanceFiles e)"

definition combinedHashOf :: "env \<Rightarrow> string \<Rightarrow> string" where
  "combinedHashOf e normalizedOutput =
     computeSha256 e (computeSha256 e normalizedOutput @ computeSha256 e (governanceContextOf e))"

text \<open>\<^verbatim>\<open>state[today] || null\<close>\<close>

definition dayStateOf :: "json \<Rightarrow> string \<Rightarrow> json" where
  "dayStateOf state day =
     (case getProp state day of Some v \<Rightarrow> if truthy v then v else JNull | None \<Rightarrow> JNull)"

text \<open>
  \<^verbatim>\<open>dayState && dayState.combinedHash === combinedHash && dayState.snapshot\<close>:
  the value of the condition, \<open>None\<close> when it is falsy and the stored snapshot when
  it is truthy.
\<close>

definition cachedSnapshot :: "json \<Rightarrow> string \<Rightarrow> json option" where
  "cachedSnapshot dayState combinedHash =
     (if truthy dayState \<and> getProp dayState ''combinedHash'' = Some (JStr combinedHash)
      then (case getProp dayState ''snapshot'' of
              Some v \<Rightarrow> if truthy v then Some v else None
            | None \<Rightarrow> None)
      else None)"

text \<open>\<^verbatim>\<open>normalizedOutput ? normalizedOutput.split('\n').length : 0\<close>\<close>

definition lineCountOf :: "string \<Rightarrow> nat" where
  "lineCountOf normalizedOutput =
     (if normalizedOutput \<noteq> [] then length (splitLines normalizedOutput) else 0)"

text \<open>
  The delta of the rebuild path. \<^verbatim>\<open>Number.isInteger(dayState.lastLineCount)\<close> holds
  when the property is a number.
\<close>

definition deltaTextOf :: "json \<Rightarrow> string \<Rightarrow> string" where
  "deltaTextOf dayState normalizedOutput =
     (case (if truthy dayState then getProp dayState ''lastLineCount'' else None) of
        Some (JNum lastLineCount) \<Rightarrow>
          if int (lineCountOf normalizedOutput) > lastLineCount
          then trim (joinWith nl (jsSlice lastLineCount (splitLines normalizedOutput)))
          else []
      | _ \<Rightarrow> [])"

text \<open>The snapshot of the rebuild path.\<close>

definition rebuildSnapshot :: "json \<Rightarrow> string \<Rightarrow> string \<Rightarrow> string" where
  "rebuildSnapshot dayState normalizedOutput governanceContext =
     (let fullDailySnapshot = buildObsidianSafeSnapshot normalizedOutput MAX_SNAPSHOT_CHARS;
          deltaText = deltaTextOf dayState normalizedOutput;
          dailyContent = buildTokenAwareSnapshot deltaText fullDailySnapshot DAILY_TOKEN_BUDGET
      in buildUnifiedSnapshot dailyContent governanceContext MAX_SNAPSHOT_TOKENS)"

definition newEntry :: "env \<Rightarrow> string \<Rightarrow> string \<Rightarrow> json" where
  "newEntry e normalizedOutput safeSnapshot =
     JObj [(''noteHash'', JStr (computeSha256 e normalizedOutput)),
           (''governanceHash'', JStr (computeSha256 e (governanceContextOf e))),
           (''combinedHash'', JStr (combinedHashOf e normalizedOutput)),
           (''snapshot'', JStr safeSnapshot),
           (''lastLineCount'', JNum (int (lineCountOf normalizedOutput))),
           (''lastUpdatedIso'', JStr (nowIso e))]"

text \<open>
  The body of the \<^verbatim>\<open>try\<close> up to the choice of the artifact. It gives the snapshot
  and the state passed to \<^verbatim>\<open>writeBootstrapState\<close>, \<open>None\<close> when the function is not
  called. An \<open>Inl\<close> is an exception that reaches the outer \<^verbatim>\<open>catch\<close>.
\<close>

definition readDaily :: "env \<Rightarrow> error + string" where
  "readDaily e = (case cliOutput e of Inr out \<Rightarrow> Inr out | Inl cliError \<Rightarrow> fallbackOutput e)"

definition snapshotStep :: "env \<Rightarrow> error + (json \<times> json option)" where
  "snapshotStep e =
     (case readBootstrapState (stateFile e) of
        Inl err \<Rightarrow> Inl err
      | Inr state \<Rightarrow>
          (case readDaily e of
             Inl err \<Rightarrow> Inl err
           | Inr obsidianOutput \<Rightarrow>
               (let dayState = dayStateOf state (today e);
                    governanceContext = governanceContextOf e;
                    normalizedOutput = normalizeNewlines obsidianOutput;
                    combinedHash = combinedHashOf e normalizedOutput
                in case cachedSnapshot dayState combinedHash of
                     Some snapshot \<Rightarrow> Inr (snapshot, None)
                   | None \<Rightarrow>
                       (let safeSnapshot = rebuildSnapshot dayState normalizedOutput governanceContext;
                            state' = setProp state (today e) (newEntry e normalizedOutput safeSnapshot)
                        in case writeBootstrapState (writeError e) state' of
                             Inl err \<Rightarrow> Inl err
                           | Inr file \<Rightarrow> Inr (JStr safeSnapshot, Some state')))))"

definition dailyArtifact :: "json \<Rightarrow> string \<Rightarrow> string" where
  "dailyArtifact safeSnapshot governanceContext =
     (if truthy safeSnapshot
      then joinWith nl
             [''# Obsidian Context Snapshot'', [], jsToString safeSnapshot, [], ''---'',
              ''*Injected via Obsidian Pre-Prompt Hook (Governance + Daily Note)*'']
      else joinWith nl
             [''# Obsidian Context Snapshot'', [],
              ''No log entries found for today yet. Use the obsidian-life-memory skill to log events.'',
              [],
              (if governanceContext \<noteq> [] then nl @ ''# Behavioral Governance'' @ nl @ governanceContext
               else [])])"

definition errorArtifact :: "error \<Rightarrow> string" where
  "errorArtifact err =
     (case err of Error message \<Rightarrow>
        joinWith nl
          [''# Obsidian Memory Error'', [],
           ''The pre-prompt hook failed to load context: '' @ message, [],
           ''Please check the Obsidian service status.''])"

text \<open>
  \<^verbatim>\<open>handler\<close>: the files of \<^verbatim>\<open>context.bootstrapFiles\<close> and the state file after the
  invocation.
\<close>

definition stateFileAfter :: "env \<Rightarrow> json option \<Rightarrow> fileStatus" where
  "stateFileAfter e written =
     (case written of None \<Rightarrow> stateFile e | Some state \<Rightarrow> Wellformed state)"

definition handler :: "env \<Rightarrow> (string \<times> string) list \<Rightarrow> (string \<times> string) list \<times> fileStatus" where
  "handler e bootstrapFiles =
     (if eventType e \<noteq> ''agent:bootstrap'' then (bootstrapFiles, stateFile e)
      else (case snapshotStep e of
              Inr (safeSnapshot, written) \<Rightarrow>
                (AList.update ''OBSIDIAN_DAILY.md''
                   (dailyArtifact safeSnapshot (governanceContextOf e)) bootstrapFiles,
                 stateFileAfter e written)
            | Inl err \<Rightarrow>
                (AList.update ''OBSIDIAN_ERROR.md'' (errorArtifact err) bootstrapFiles, stateFile e)))"

section \<open>Vocabulary of the properties and inputs of the examples\<close>

text \<open>The cost the clipping loops charge for the line at index \<open>j\<close>.\<close>

definition lineCost :: "string list \<Rightarrow> nat \<Rightarrow> nat" where
  "lineCost lines j = length (lines ! j) + 1"

text \<open>
  A note of 131 lines of 99 characters: one line that is a wikilink, then 130 copies of
  one open task. It has 13099 characters.
\<close>

definition taskLine :: string where
  "taskLine = ''- [ ] '' @ replicate 93 (CHR ''a'')"

definition linkLine :: string where
  "linkLine = ''[['' @ replicate 95 (CHR ''Z'') @ '']]''"

definition bigNote :: string where
  "bigNote = joinWith nl (linkLine # replicate 130 taskLine)"

text \<open>The lines assembled from that note, and the lines the final guard keeps.\<close>

definition recentHeading :: string where "recentHeading = ''## Recent Snapshot''"
definition tasksHeading :: string where "tasksHeading = ''## Tasks (Preserved)''"
definition linksHeading :: string where "linksHeading = ''## Wikilinks (Graph Integrity)''"

definition bigLines :: "string list" where
  "bigLines = [recentHeading, [], taskLine, [], tasksHeading, []] @ replicate 130 taskLine
     @ [[], linksHeading, [], linkLine]"

definition bigKept :: "string list" where
  "bigKept = [recentHeading, [], taskLine, [], tasksHeading, []] @ replicate 118 taskLine
     @ [[], linksHeading]"

text \<open>
  Notes with one line of 12000 characters: between two short lines, and before an
  indented line.
\<close>

definition longLine :: string where
  "longLine = replicate 12000 (CHR ''b'')"

definition gapNote :: string where
  "gapNote = joinWith nl [''first'', longLine, ''last'']"



text \<open>
  A governance document of 4767 characters with one section, the governance context
  built from it (4800 characters), and a daily note of 7176 characters.
\<close>

definition soulDoc :: string where
  "soulDoc = ''## Safety'' @ nl @ replicate 4757 (CHR ''a'')"

definition soulContext :: string where
  "soulContext = buildGovernanceContext [(''SOUL.md'', soulDoc)]"

definition fullDaily :: string where
  "fullDaily = replicate 7176 (CHR ''b'')"

text \<open>
  The delta in the words of the specification: the lines from index \<open>n\<close> to the end,
  without the blank lines before and after them.
\<close>

definition isBlankLine :: "string \<Rightarrow> bool" where
  "isBlankLine l = list_all isSpace l"

definition stripBlankLines :: "string list \<Rightarrow> string list" where
  "stripBlankLines ls = rev (dropWhile isBlankLine (rev (dropWhile isBlankLine ls)))"

definition specDelta :: "nat \<Rightarrow> string \<Rightarrow> string" where
  "specDelta n normalizedOutput =
     joinWith nl (stripBlankLines (drop n (splitLines normalizedOutput)))"

text \<open>A stored entry with a line count, and a log of three lines.\<close>

definition priorEntry :: "int \<Rightarrow> json" where
  "priorEntry n =
     JObj [(''combinedHash'', JStr ''old hash''), (''snapshot'', JStr ''old snapshot''),
           (''lastLineCount'', JNum n)]"

definition grownLog :: string where
  "grownLog = ''## Log'' @ nl @ ''- item one'' @ nl @ ''  - nested detail''"

text \<open>
  The values that are neither an object nor an array, and the state files that load as
  the empty mapping.
\<close>

definition nonObject :: "json \<Rightarrow> bool" where
  "nonObject j = (case j of JArr xs \<Rightarrow> False | JObj kvs \<Rightarrow> False | _ \<Rightarrow> True)"

definition emptyFile :: "fileStatus \<Rightarrow> bool" where
  "emptyFile f = (case f of Wellformed j \<Rightarrow> nonObject j | _ \<Rightarrow> True)"

text \<open>
  What the claim calls a cache hit: an entry for the day whose stored hash is the fresh
  one.
\<close>

definition specCacheHit :: "json \<Rightarrow> string \<Rightarrow> string \<Rightarrow> bool" where
  "specCacheHit state day combinedHash =
     (case getProp state day of
        Some entry \<Rightarrow> getProp entry ''combinedHash'' = Some (JStr combinedHash)
      | None \<Rightarrow> False)"

text \<open>
  An invocation on 2026-01-15 with no governance files, the daily note given by the
  command line. \<open>stubSha256\<close> stands for SHA-256 in the examples, which do not depend on
  the digest chosen.
\<close>

definition stubSha256 :: "string \<Rightarrow> string" where
  "stubSha256 s = ''sha:'' @ s"

definition dayEnv :: "fileStatus \<Rightarrow> string \<Rightarrow> string \<Rightarrow> env" where
  "dayEnv file now daily =
     \<lparr>eventType = ''agent:bootstrap'', today = ''2026-01-15'', nowIso = now,
      stateFile = file, writeError = None, cliOutput = Inr daily, fallbackOutput = Inr [],
      governanceFiles = [], computeSha256 = stubSha256\<rparr>"

definition standup :: string where
  "standup = ''- 09:00 standup''"

text \<open>The entries that the handler writes for the note \<open>standup\<close> and for the empty note.\<close>

definition standupEntry :: "string \<Rightarrow> json" where
  "standupEntry now =
     JObj [(''noteHash'', JStr (''sha:'' @ standup)), (''governanceHash'', JStr ''sha:''),
           (''combinedHash'', JStr (''sha:sha:'' @ standup @ ''sha:'')),
           (''snapshot'', JStr (dailyHeader @ standup)),
           (''lastLineCount'', JNum 1), (''lastUpdatedIso'', JStr now)]"

definition emptyEntry :: "string \<Rightarrow> json" where
  "emptyEntry now =
     JObj [(''noteHash'', JStr ''sha:''), (''governanceHash'', JStr ''sha:''),
           (''combinedHash'', JStr ''sha:sha:sha:''), (''snapshot'', JStr []),
           (''lastLineCount'', JNum 0), (''lastUpdatedIso'', JStr now)]"

definition otherDayState :: json where
  "otherDayState = JObj [(''2026-01-14'', priorEntry 7)]"

text \<open>
  A section in the words of the specification: the lines after a heading up to the next
  heading of equal or higher level.
\<close>

definition headingLevel :: "string \<Rightarrow> nat" where
  "headingLevel line = length (takeWhile (\<lambda>c. c = CHR ''#'') line)"

definition specSectionBody :: "nat \<Rightarrow> string list \<Rightarrow> string list" where
  "specSectionBody level following =
     takeWhile (\<lambda>l. \<not> (headingMatch l \<noteq> None \<and> headingLevel l \<le> level)) following"

text \<open>Two governance documents.\<close>

definition nestedDoc :: string where
  "nestedDoc = joinWith nl [''## Safety'', ''keep backups'', ''### Details'',
     ''rotate the logs weekly'', ''## Other'', ''notes'']"

definition rulesDoc :: string where
  "rulesDoc = joinWith nl [''# Notes'', ''some intro'', ''## Safety Protocols'', ''keep backups'',
     ''## Other'', ''- NEVER delete user files'', ''- NEVER delete user files'', ''tail'']"

section \<open>Lemmas on the text primitives\<close>

lemma length_trim_le: "length (trim s) \<le> length s"
proof -
  have "length (dropWhile isSpace (rev (dropWhile isSpace s))) \<le> length (rev (dropWhile isSpace s))"
    by (rule length_dropWhile_le)
  also have "\<dots> \<le> length s" by (simp add: length_dropWhile_le)
  finally show ?thesis by (simp add: trim_def)
qed

lemma length_joinWith:
  "length (joinWith sep xs) = sum_list (map length xs) + (length xs - 1) * length sep"
  by (induction sep xs rule: joinWith.induct) auto

lemma boundedLines_total:
  "u \<le> m \<Longrightarrow> u + sum_list (map (\<lambda>l. length l + 1) (boundedLines ls m u)) \<le> m"
  by (induction ls m u rule: boundedLines.induct) (auto simp: Let_def)


lemma length_join_nl_le:
  "length (joinWith nl xs) \<le> sum_list (map (\<lambda>l. length l + 1) xs)"
  by (induction nl xs rule: joinWith.induct) (auto simp: nl_def)

lemma length_bounded_join: "length (trim (joinWith nl (boundedLines ls m 0))) \<le> m"
proof -
  have "length (trim (joinWith nl (boundedLines ls m 0))) \<le> length (joinWith nl (boundedLines ls m 0))"
    by (rule length_trim_le)
  also have "\<dots> \<le> sum_list (map (\<lambda>l. length l + 1) (boundedLines ls m 0))"
    by (rule length_join_nl_le)
  also have "\<dots> \<le> m" using boundedLines_total[of 0 m ls] by simp
  finally show ?thesis .
qed

lemma marker_length: "length (nl @ nl @ truncationMarker) = 67"
  by (simp add: nl_def truncationMarker_def)

lemma normalizeNewlines_id: "CHR 0x0D \<notin> set s \<Longrightarrow> normalizeNewlines s = s"
  by (induction s rule: normalizeNewlines.induct) auto

lemma trim_id: "s \<noteq> [] \<Longrightarrow> \<not> isSpace (hd s) \<Longrightarrow> \<not> isSpace (last s) \<Longrightarrow> trim s = s"
proof -
  assume a: "s \<noteq> []" "\<not> isSpace (hd s)" "\<not> isSpace (last s)"
  then have "dropWhile isSpace s = s" by (cases s) auto
  moreover have "dropWhile isSpace (rev s) = rev s"
    using a by (cases "rev s") (auto simp: hd_rev)
  ultimately show ?thesis by (simp add: trim_def)
qed

lemma trim_snoc_space: "isSpace c \<Longrightarrow> trim (s @ [c]) = trim s"
proof -
  assume c: "isSpace c"
  show ?thesis
  proof (cases "\<forall>x \<in> set s. isSpace x")
    case True
    then have "dropWhile isSpace s = []" "dropWhile isSpace (s @ [c]) = []"
      using c by (simp_all only: dropWhile_eq_Nil_conv set_append set_simps) auto
    then show ?thesis by (simp only: trim_def)
  next
    case False
    then obtain x where "x \<in> set s" "\<not> isSpace x" by blast
    then have "dropWhile isSpace (s @ [c]) = dropWhile isSpace s @ [c]"
      by (rule dropWhile_append1)
    then show ?thesis using c by (simp add: trim_def)
  qed
qed

lemma splitLines_nonempty: "splitLines s \<noteq> []"
  by (induction s) (auto split: list.splits)

lemma splitLines_no_newline: "CHR ''\<newline>'' \<notin> set s \<Longrightarrow> splitLines s = [s]"
  by (induction s) auto

lemma splitLines_append_nl:
  "CHR ''\<newline>'' \<notin> set l \<Longrightarrow> splitLines (l @ nl @ r) = l # splitLines r"
  by (induction l) (auto simp: nl_def)

lemma splitLines_join:
  "xs \<noteq> [] \<Longrightarrow> \<forall>l \<in> set xs. CHR ''\<newline>'' \<notin> set l \<Longrightarrow> splitLines (joinWith nl xs) = xs"
proof (induction nl xs rule: joinWith.induct)
  case 1
  then show ?case by simp
next
  case (2 x)
  then show ?case by (simp add: splitLines_no_newline)
next
  case (3 x y ys)
  then show ?case by (simp add: splitLines_append_nl)
qed

lemma joinWith_append:
  "xs \<noteq> [] \<Longrightarrow> ys \<noteq> [] \<Longrightarrow> joinWith sep (xs @ ys) = joinWith sep xs @ sep @ joinWith sep ys"
proof (induction sep xs rule: joinWith.induct)
  case (2 sep x)
  then show ?case by (cases ys) auto
qed auto

lemma joinWith_Cons: "ys \<noteq> [] \<Longrightarrow> joinWith sep (x # ys) = x @ sep @ joinWith sep ys"
  by (cases ys) auto

lemma set_joinWith: "set (joinWith sep xs) \<subseteq> set sep \<union> \<Union> (set ` set xs)"
  by (induction sep xs rule: joinWith.induct) auto

lemma set_trim: "set (trim s) \<subseteq> set s"
proof -
  have "set (dropWhile isSpace (rev (dropWhile isSpace s))) \<subseteq> set (rev (dropWhile isSpace s))"
    by (rule set_dropWhileD[THEN subsetI]) 
  also have "\<dots> \<subseteq> set s" using set_dropWhileD[of _ isSpace s] by auto
  finally show ?thesis by (simp add: trim_def)
qed

lemma wikilinkAt_None_no_bracket:
  "CHR ''['' \<notin> set (take 3 s) \<Longrightarrow> wikilinkAt s = None"
  by (auto simp: wikilinkAt_def Let_def split: list.splits)

lemma tagRun_no_hash: "CHR ''#'' \<notin> set s \<Longrightarrow> tagRun s = None"
  by (auto simp: tagRun_def split: list.splits)

lemma tagMatches_no_hash: "CHR ''#'' \<notin> set s \<Longrightarrow> tagMatches b s = []"
proof (induction b s rule: tagMatches.induct)
  case (1 atLineStart)
  then show ?case by simp
next
  case (2 atLineStart c cs)
  then have "tagRun (c # cs) = None" "tagRun cs = None"
    by (auto intro: tagRun_no_hash)
  then show ?case using 2 by simp
qed

lemma commentLoop_none:
  "\<forall>l \<in> set ls. \<not> includesStr l ''%%'' \<Longrightarrow> commentLoop ls False = []"
  by (induction ls) auto

lemma not_includes_by_char: "c \<in> set t \<Longrightarrow> c \<notin> set s \<Longrightarrow> \<not> includesStr s t"
  using set_mono_sublist by (auto simp: includesStr_def)

lemma splitLines_chars: "l \<in> set (splitLines s) \<Longrightarrow> set l \<subseteq> set s"
proof (induction s arbitrary: l)
  case Nil
  then show ?case by simp
next
  case (Cons c cs)
  show ?case
  proof (cases "c = CHR ''\<newline>''")
    case True
    then show ?thesis using Cons by auto
  next
    case False
    obtain x xs where sp: "splitLines cs = x # xs"
      using splitLines_nonempty[of cs] by (cases "splitLines cs") auto
    then have "l = c # x \<or> l \<in> set xs" using Cons.prems False by simp
    then show ?thesis using Cons.IH sp by fastforce
  qed
qed

lemma sublist_joinWith: "x \<in> set xs \<Longrightarrow> sublist x (joinWith sep xs)"
proof (induction sep xs rule: joinWith.induct)
  case (1 sep)
  then show ?case by simp
next
  case (2 sep y)
  then show ?case by simp
next
  case (3 sep y z zs)
  show ?case
  proof (cases "x = y")
    case True
    then show ?thesis by (simp add: sublist_append_rightI)
  next
    case False
    then have "sublist x (joinWith sep (z # zs))" using 3 by simp
    then obtain ps ss where "joinWith sep (z # zs) = ps @ x @ ss"
      by (auto simp: sublist_def)
    then have "joinWith sep (y # z # zs) = (y @ sep @ ps) @ x @ ss" by simp
    then show ?thesis unfolding sublist_def by blast
  qed
qed

lemma dropWhile_keeps_infix:
  "x \<noteq> [] \<Longrightarrow> \<not> P (hd x) \<Longrightarrow> \<exists>p'. dropWhile P (p @ x @ q) = p' @ x @ q"
proof (induction p)
  case Nil
  then have "dropWhile P (x @ q) = x @ q" by (cases x) auto
  then show ?case by (intro exI[of _ "[]"]) simp
next
  case (Cons c p)
  show ?case
  proof (cases "P c")
    case True
    then show ?thesis using Cons by simp
  next
    case False
    then show ?thesis by (intro exI[of _ "c # p"]) simp
  qed
qed

lemma sublist_trim:
  assumes "sublist x s" "x \<noteq> []" "\<not> isSpace (hd x)" "\<not> isSpace (last x)"
  shows "sublist x (trim s)"
proof -
  obtain p q where s: "s = p @ x @ q" using assms(1) by (auto simp: sublist_def)
  obtain p' where p': "dropWhile isSpace (p @ x @ q) = p' @ x @ q"
    using dropWhile_keeps_infix[of x isSpace p q] assms(2,3) by blast
  have "rev x \<noteq> []" "\<not> isSpace (hd (rev x))" using assms(2,4) by (simp_all add: hd_rev)
  then obtain q' where q': "dropWhile isSpace (rev q @ rev x @ rev p') = q' @ rev x @ rev p'"
    using dropWhile_keeps_infix[of "rev x" isSpace "rev q" "rev p'"] by blast
  have "trim s = p' @ x @ rev q'"
    by (simp add: trim_def s p' q')
  then show ?thesis by (auto simp: sublist_def)
qed

lemma set_uniqueFrom: "set (uniqueFrom seen xs) = set xs - seen"
  by (induction seen xs rule: uniqueFrom.induct) auto

lemma set_unique: "set (unique xs) = set xs"
  by (simp add: unique_def set_uniqueFrom)

lemma trim_shape:
  assumes "trim u \<noteq> []"
  shows "\<not> isSpace (hd (trim u)) \<and> \<not> isSpace (last (trim u))"
proof -
  let ?d = "dropWhile isSpace u"
  let ?e = "dropWhile isSpace (rev ?d)"
  have e: "?e \<noteq> []" using assms by (simp add: trim_def)
  then have d: "?d \<noteq> []" by (cases ?d) simp_all
  have "last (trim u) = hd ?e" using e by (simp add: trim_def last_rev)
  moreover have "\<not> isSpace (hd ?e)" using e by (rule hd_dropWhile)
  moreover have "\<not> isSpace (hd ?d)" using d by (rule hd_dropWhile)
  moreover have "hd (trim u) = last ?e" using e by (simp add: trim_def hd_rev)
  moreover have "last ?e = last (rev ?d)"
  proof -
    have "rev ?d = takeWhile isSpace (rev ?d) @ ?e" by simp
    then show ?thesis using e by (metis last_appendR)
  qed
  moreover have "last (rev ?d) = hd ?d" using d by (simp add: last_rev)
  ultimately show ?thesis by simp
qed


lemma trim_replicate: "\<not> isSpace c \<Longrightarrow> trim (replicate n c) = replicate n c"
proof (cases n)
  case 0
  then show ?thesis by (simp add: trim_def)
next
  case (Suc k)
  assume "\<not> isSpace c"
  then show ?thesis
    using Suc by (intro trim_id) (simp_all add: hd_replicate del: replicate_Suc)
qed

lemma trim_nonempty: "s \<noteq> [] \<Longrightarrow> \<not> isSpace (hd s) \<Longrightarrow> trim s \<noteq> []"
proof -
  assume a: "s \<noteq> []" "\<not> isSpace (hd s)"
  then have "dropWhile isSpace s = s" by (cases s) auto
  moreover have "dropWhile isSpace (rev s) \<noteq> []"
    using a by (cases s) (auto simp: dropWhile_eq_Nil_conv)
  ultimately show ?thesis by (simp add: trim_def)
qed

lemma joinWith_hd: "x \<noteq> [] \<Longrightarrow> joinWith sep (x # xs) \<noteq> [] \<and> hd (joinWith sep (x # xs)) = hd x"
  by (cases xs) auto

lemma suffix_trim:
  assumes "suffix x s" "x \<noteq> []" "\<not> isSpace (hd x)" "\<not> isSpace (last x)"
  shows "suffix x (trim s)"
proof -
  obtain p where s: "s = p @ x @ []" using assms(1) by (auto simp: suffix_def)
  obtain p' where p': "dropWhile isSpace (p @ x @ []) = p' @ x @ []"
    using dropWhile_keeps_infix[of x isSpace p "[]"] assms(2,3) by blast
  have "dropWhile isSpace (rev x @ rev p') = rev x @ rev p'"
    using assms(2,4) by (cases "rev x") (auto simp: hd_rev)
  then have "trim s = p' @ x" using p' by (simp add: trim_def s)
  then show ?thesis by (simp add: suffix_def)
qed

lemma joinWith_last_aux:
  "xs \<noteq> [] \<Longrightarrow> last xs \<noteq> [] \<Longrightarrow>
     joinWith sep xs \<noteq> [] \<and> last (joinWith sep xs) = last (last xs)"
  by (induction sep xs rule: joinWith.induct) auto

lemma joinWith_last:
  "xs \<noteq> [] \<Longrightarrow> last xs \<noteq> [] \<Longrightarrow> last (joinWith sep xs) = last (last xs)"
  using joinWith_last_aux by blast

lemma joinWith_suffix: "suffix (joinWith sep ys) (joinWith sep (xs @ ys))"
proof (cases "xs = [] \<or> ys = []")
  case True
  then show ?thesis by auto
next
  case False
  then show ?thesis by (simp add: joinWith_append suffix_def)
qed

lemma distinct_uniqueFrom: "distinct (uniqueFrom seen xs) \<and> set (uniqueFrom seen xs) \<inter> seen = {}"
  by (induction seen xs rule: uniqueFrom.induct) (auto simp: set_uniqueFrom)

section \<open>The greedy selection of lines\<close>

lemma pickFromTail_subset: "set (pickFromTail es m u) \<subseteq> fst ` set es"
  by (induction es m u rule: pickFromTail.induct) (auto simp: Let_def)

lemma pickFromTail_subseq: "subseq (pickFromTail es m u) (map fst es)"
  by (induction es m u rule: pickFromTail.induct) (auto simp: Let_def)


lemma pickFromTail_greedy:
  assumes "sorted_wrt (\<lambda>a b. b < a) (map fst es)"
      and "\<forall>(i, l) \<in> set es. l = lines ! i"
      and "(k, l) \<in> set es"
  shows "k \<in> set (pickFromTail es m u) \<longleftrightarrow>
           u + sum_list (map (lineCost lines) (filter (\<lambda>j. k < j) (pickFromTail es m u)))
             + lineCost lines k \<le> m"
  using assms
proof (induction es m u rule: pickFromTail.induct)
  case (1 m u)
  then show ?case by simp
next
  case (2 i c rest m u)
  have below: "\<forall>j \<in> set (pickFromTail rest m' u'). j < i" for m' u'
    using 2(3) pickFromTail_subset[of rest m' u'] by (auto simp: )
  have ci: "c = lines ! i" using 2(4) by simp
  show ?case
  proof (cases "u + (length c + 1) > m")
    case True
    show ?thesis
    proof (cases "k = i")
      case True
      have "filter (\<lambda>j. k < j) (pickFromTail rest m u) = []"
        using below[of m u] True by (auto simp: filter_empty_conv)
      moreover have "i \<notin> set (pickFromTail rest m u)" using below[of m u] by auto
      ultimately show ?thesis using \<open>u + (length c + 1) > m\<close> True ci
        by (simp add: Let_def lineCost_def)
    next
      case False
      then have "(k, l) \<in> set rest" using 2(5) by auto
      then show ?thesis using 2(1)[OF refl True] 2(3,4) True by (simp add: Let_def)
    qed
  next
    case False
    show ?thesis
    proof (cases "k = i")
      case True
      have "filter (\<lambda>j. k < j) (pickFromTail rest m (u + (length c + 1))) = []"
        using below[of m "u + (length c + 1)"] True by (auto simp: filter_empty_conv)
      then show ?thesis using False True ci
        by (simp add: Let_def lineCost_def)
    next
      case kf: False
      then have kin: "(k, l) \<in> set rest" using 2(5) by auto
      then have "k < i" using 2(3) by force
      then show ?thesis using 2(2)[OF refl False] 2(3,4) False kin kf ci
        by (simp add: Let_def lineCost_def ac_simps)
    qed
  qed
qed

lemma pickFromTail_distinct:
  "distinct (map fst es) \<Longrightarrow> distinct (pickFromTail es m u)"
proof (induction es m u rule: pickFromTail.induct)
  case (2 i c rest m u)
  then show ?case using pickFromTail_subset[of rest] by (auto simp: Let_def)
qed simp

lemma pickFromTail_total:
  "u \<le> m \<Longrightarrow> (\<forall>(i, l) \<in> set es. l = lines ! i) \<Longrightarrow>
     u + sum_list (map (lineCost lines) (pickFromTail es m u)) \<le> m"
  by (induction es m u rule: pickFromTail.induct) (auto simp: Let_def lineCost_def)

lemma enum_rev_sorted:
  "sorted_wrt (\<lambda>a b. b < a) (map fst (rev (zip [0 ..< length ls] ls)))"
proof -
  have "map fst (rev (zip [0 ..< length ls] ls)) = rev [0 ..< length ls]"
    by (simp add: rev_map[symmetric])
  then show ?thesis by (simp add: sorted_wrt_rev)
qed

lemma enum_rev_nth: "\<forall>(i, l) \<in> set (rev (zip [0 ..< length ls] ls)). l = ls ! i \<and> i < length ls"
  by (auto simp: set_zip)

lemma pushHeadings_set:
  "pushHeadings hs seen = (r, s) \<Longrightarrow> set r \<union> seen = set hs \<union> seen \<and> s = seen \<union> set hs"
proof (induction hs seen arbitrary: r s rule: pushHeadings.induct)
  case (1 seen)
  then show ?case by simp
next
  case (2 heading rest seen)
  show ?case
  proof (cases "heading \<in> seen")
    case True
    then show ?thesis using 2 by auto
  next
    case False
    obtain r' s' where p: "pushHeadings rest (insert heading seen) = (r', s')"
      by (cases "pushHeadings rest (insert heading seen)")
    then have "r = heading # r'" "s = s'" using 2(3) False by simp_all
    moreover have "set r' \<union> insert heading seen = set rest \<union> insert heading seen \<and> s' = insert heading seen \<union> set rest"
      using 2(1)[OF False p] .
    ultimately show ?thesis by auto
  qed
qed

lemma pushHeadings_subset: "set (fst (pushHeadings hs seen)) \<subseteq> set hs"
  by (induction hs seen rule: pushHeadings.induct) (auto split: prod.splits)

lemma pushLines_subset: "set (pushLines xs seen) \<subseteq> set xs"
  by (induction xs seen rule: pushLines.induct) auto

lemma pushLines_cover: "set xs \<subseteq> set (pushLines xs seen) \<union> seen"
  by (induction xs seen rule: pushLines.induct) auto

lemma clip_set:
  assumes "pickedIndices lines m \<noteq> []"
  shows "set (clipFromTailByLine lines m) =
           set (findHeadingContext lines (hd (pickedIndices lines m)))
             \<union> (\<lambda>i. lines ! i) ` set (pickedIndices lines m)"
proof -
  let ?hs = "findHeadingContext lines (hd (pickedIndices lines m))"
  let ?ps = "map (\<lambda>idx. lines ! idx) (pickedIndices lines m)"
  obtain r s where p: "pushHeadings ?hs {} = (r, s)" by (cases "pushHeadings ?hs {}")
  then have rs: "set r = set ?hs" "s = set ?hs" using pushHeadings_set[OF p] by auto
  have c: "clipFromTailByLine lines m = r @ pushLines ?ps s"
    using assms p by (simp add: clipFromTailByLine_def Let_def)
  have "set (pushLines ?ps s) \<subseteq> set ?ps" by (rule pushLines_subset)
  moreover have "set ?ps \<subseteq> set (pushLines ?ps s) \<union> s" by (rule pushLines_cover)
  ultimately show ?thesis unfolding c using rs by auto
qed

lemma picked_props:
  "sorted (pickedIndices lines m)" "distinct (pickedIndices lines m)"
  "\<forall>i \<in> set (pickedIndices lines m). i < length lines"
proof -
  let ?es = "rev (zip [0 ..< length lines] lines)"
  show "sorted (pickedIndices lines m)" by (simp add: pickedIndices_def)
  have "distinct (map fst ?es)" by (simp add: rev_map[symmetric])
  then show "distinct (pickedIndices lines m)"
    by (simp add: pickedIndices_def pickFromTail_distinct)
  show "\<forall>i \<in> set (pickedIndices lines m). i < length lines"
  proof
    fix i assume "i \<in> set (pickedIndices lines m)"
    then have "i \<in> fst ` set ?es"
      using pickFromTail_subset[of ?es m 0] by (auto simp: pickedIndices_def)
    then obtain l where "(i, l) \<in> set (zip [0 ..< length lines] lines)" by auto
    then have "i \<in> set [0 ..< length lines]" by (rule set_zip_leftD)
    then show "i < length lines" by simp
  qed
qed

lemma sum_list_sort_filter:
  fixes f :: "nat \<Rightarrow> nat"
  assumes "distinct xs"
  shows "sum_list (map f (filter P (sort xs))) = sum_list (map f (filter P xs))"
proof -
  have "sum_list (map f (filter P (sort xs))) = sum f (set (filter P (sort xs)))"
    using assms by (simp add: sum_list_distinct_conv_sum_set)
  also have "\<dots> = sum f (set (filter P xs))" by simp
  also have "\<dots> = sum_list (map f (filter P xs))"
    using assms by (simp add: sum_list_distinct_conv_sum_set)
  finally show ?thesis .
qed

lemma picked_total: "sum_list (map (lineCost lines) (pickedIndices lines m)) \<le> m"
proof -
  let ?es = "rev (zip [0 ..< length lines] lines)"
  have d: "distinct (pickFromTail ?es m 0)"
    by (rule pickFromTail_distinct) (simp add: rev_map[symmetric])
  have "\<forall>(i, l) \<in> set ?es. l = lines ! i" using enum_rev_nth[of lines] by auto
  then have "0 + sum_list (map (lineCost lines) (pickFromTail ?es m 0)) \<le> m"
    by (intro pickFromTail_total) auto
  moreover have "sum_list (map (lineCost lines) (filter (\<lambda>j. True) (sort (pickFromTail ?es m 0))))
      = sum_list (map (lineCost lines) (filter (\<lambda>j. True) (pickFromTail ?es m 0)))"
    using d by (rule sum_list_sort_filter)
  ultimately show ?thesis by (simp add: pickedIndices_def)
qed

lemma picked_greedy:
  assumes "k < length lines"
  shows "k \<in> set (pickedIndices lines m) \<longleftrightarrow>
           sum_list (map (lineCost lines) (filter (\<lambda>j. k < j) (pickedIndices lines m)))
             + lineCost lines k \<le> m"
proof -
  let ?es = "rev (zip [0 ..< length lines] lines)"
  have d: "distinct (pickFromTail ?es m 0)"
    by (rule pickFromTail_distinct) (simp add: rev_map[symmetric])
  have kin: "(k, lines ! k) \<in> set ?es"
    using assms by (auto simp: set_zip intro!: exI[of _ k])
  have nth: "\<forall>(i, l) \<in> set ?es. l = lines ! i" using enum_rev_nth[of lines] by auto
  have "k \<in> set (pickFromTail ?es m 0) \<longleftrightarrow>
          0 + sum_list (map (lineCost lines) (filter (\<lambda>j. k < j) (pickFromTail ?es m 0)))
            + lineCost lines k \<le> m"
    using pickFromTail_greedy[OF enum_rev_sorted nth kin] .
  then show ?thesis
    using sum_list_sort_filter[OF d, of "lineCost lines" "\<lambda>j. k < j"]
    by (simp add: pickedIndices_def)
qed



section \<open>The extraction of tasks, links and tags\<close>

lemma wikilinkMatches_no_bracket: "CHR ''['' \<notin> set s \<Longrightarrow> wikilinkMatches s = []"
proof (induction s rule: wikilinkMatches.induct)
  case 1
  then show ?case by simp
next
  case (2 c cs)
  then have "wikilinkAt (c # cs) = None"
    by (intro wikilinkAt_None_no_bracket) (auto dest: in_set_takeD)
  then show ?case using 2 by simp
qed

lemma isTaskLine_bracket: "isTaskLine l \<Longrightarrow> CHR ''['' \<in> set l"
proof -
  assume "isTaskLine l"
  then have "CHR ''['' \<in> set (dropWhile isSpace l)"
    by (auto simp: isTaskLine_def split: list.splits)
  then show ?thesis by (rule set_dropWhileD)
qed


lemma assemble_plain:
  assumes "CHR ''['' \<notin> set s" "CHR ''#'' \<notin> set s" "CHR ''%'' \<notin> set s"
  shows "assembleSnapshot s m =
           trim (joinWith (nl @ nl) (filter (\<lambda>p. p \<noteq> [])
             [''## Recent Snapshot'',
              trim (joinWith nl (clipFromTailByLine (splitLines s) (65 * m div 100)))]))"
proof -
  have "extractTaskLines (splitLines s) = []"
    using assms(1) splitLines_chars[of _ s] isTaskLine_bracket
    by (auto simp: extractTaskLines_def filter_empty_conv)
  moreover have "extractWikilinks s = []"
    using assms(1) by (simp add: extractWikilinks_def wikilinkMatches_no_bracket unique_def)
  moreover have "extractTags s = []"
    using assms(2) by (simp add: extractTags_def tagMatches_no_hash unique_def)
  moreover have "extractCommentLines (splitLines s) = []"
    unfolding extractCommentLines_def
  proof (rule commentLoop_none, rule ballI)
    fix l assume "l \<in> set (splitLines s)"
    then have "CHR ''%'' \<notin> set l" using assms(3) splitLines_chars by blast
    then show "\<not> includesStr l ''%%''"
      by (intro not_includes_by_char[of "CHR ''%''"]) simp_all
  qed
  ultimately show ?thesis by (simp add: assembleSnapshot_def Let_def)
qed



lemma isTagChar_not_space: "isTagChar c \<Longrightarrow> \<not> isSpace c"
  by (auto simp: isTagChar_def isSpace_def)





section \<open>The truncator on a note of 13099 characters\<close>

lemma replicate_numeral: "replicate (numeral k) x = x # replicate (pred_numeral k) x"
  by (simp add: numeral_eq_Suc)

lemma length_taskLine: "length taskLine = 99"
  by (simp add: taskLine_def)
lemma length_linkLine: "length linkLine = 99"
  by (simp add: linkLine_def)
lemma set_taskLine: "set taskLine = {CHR ''-'', CHR '' '', CHR ''['', CHR '']'', CHR ''a''}"
  by (auto simp: taskLine_def)
lemma set_linkLine: "set linkLine = {CHR ''['', CHR ''Z'', CHR '']''}"
  by (auto simp: linkLine_def)
lemma taskLine_ends: "hd taskLine = CHR ''-''" "last taskLine = CHR ''a''" "taskLine \<noteq> []"
  by (simp_all add: taskLine_def)
lemma linkLine_ends: "hd linkLine = CHR ''[''" "last linkLine = CHR '']''" "linkLine \<noteq> []"
  by (simp_all add: linkLine_def)
lemma isTaskLine_taskLine: "isTaskLine taskLine"
  by (simp add: isTaskLine_def taskLine_def isSpace_def replicate_numeral)
lemma isTaskLine_linkLine: "\<not> isTaskLine linkLine"
  by (simp add: isTaskLine_def linkLine_def isSpace_def replicate_numeral)
lemma isHeadingLine_taskLine: "\<not> isHeadingLine taskLine"
  by (simp add: isHeadingLine_def taskLine_def)
lemma isHeadingLine_linkLine: "\<not> isHeadingLine linkLine"
  by (simp add: isHeadingLine_def linkLine_def)
lemma task_neq_link: "taskLine \<noteq> linkLine"
  by (simp add: taskLine_def linkLine_def)

lemma bigNote_set: "set bigNote \<subseteq> {CHR ''\<newline>'', CHR ''-'', CHR '' '', CHR ''['', CHR '']'', CHR ''a'', CHR ''Z''}"
  unfolding bigNote_def
  using set_joinWith[of nl "linkLine # replicate 130 taskLine"]
  by (auto simp: nl_def set_taskLine set_linkLine)

lemma bigNote_eq: "bigNote = linkLine @ nl @ joinWith nl (replicate 130 taskLine)"
  by (simp add: bigNote_def joinWith_Cons)

lemma bigNote_normal: "trim (normalizeNewlines bigNote) = bigNote"
proof -
  have "normalizeNewlines bigNote = bigNote"
    using bigNote_set by (intro normalizeNewlines_id) auto
  moreover have "hd bigNote = CHR ''[''" using linkLine_ends by (simp add: bigNote_eq)
  moreover have "last bigNote = CHR ''a''"
    using taskLine_ends
    by (simp add: bigNote_eq nl_def replicate_numeral joinWith_Cons last_append)
  moreover have "bigNote \<noteq> []" using linkLine_ends by (simp add: bigNote_eq)
  ultimately show ?thesis by (simp add: trim_id isSpace_def)
qed

lemma bigNote_length: "length bigNote = 13099"
  by (simp add: bigNote_def length_joinWith length_taskLine length_linkLine nl_def sum_list_replicate)

lemma bigNote_lines: "splitLines bigNote = linkLine # replicate 130 taskLine"
  unfolding bigNote_def
  by (rule splitLines_join) (auto simp: set_taskLine set_linkLine)

lemma wikilinkMatches_skip:
  "wikilinkAt (c # cs) = None \<Longrightarrow> wikilinkMatches (c # cs) = wikilinkMatches cs"
  by simp

lemma wikilinkMatches_replicate_a:
  "wikilinkMatches (replicate k (CHR ''a'') @ r) = wikilinkMatches r"
proof (induction k)
  case 0
  then show ?case by simp
next
  case (Suc k)
  have "wikilinkAt (CHR ''a'' # replicate k (CHR ''a'') @ r) = None"
    by (auto simp: wikilinkAt_def Let_def split: list.splits)
  then show ?case using Suc by simp
qed

lemma wikilinkMatches_taskLine: "wikilinkMatches (taskLine @ r) = wikilinkMatches r"
proof -
  have "wikilinkMatches (''- [ ] '' @ s) = wikilinkMatches s" for s
    by (simp add: wikilinkAt_def Let_def split: list.splits)
  then show ?thesis
    using wikilinkMatches_replicate_a[of 93 r] by (simp add: taskLine_def)
qed

lemma wikilinkMatches_nl: "wikilinkMatches (nl @ r) = wikilinkMatches r"
  by (simp add: nl_def wikilinkAt_def Let_def split: list.splits)

lemma wikilinkMatches_tasks: "wikilinkMatches (joinWith nl (replicate n taskLine)) = []"
proof (induction n)
  case 0
  then show ?case by simp
next
  case (Suc n)
  show ?case
  proof (cases n)
    case 0
    then show ?thesis using wikilinkMatches_taskLine[of "[]"] by simp
  next
    case (Suc k)
    then have "joinWith nl (replicate (Suc n) taskLine) = taskLine @ nl @ joinWith nl (replicate n taskLine)"
      by simp
    then show ?thesis using Suc.IH by (simp add: wikilinkMatches_taskLine wikilinkMatches_nl)
  qed
qed

lemma wikilinkAt_linkLine: "wikilinkAt (linkLine @ nl @ r) = Some linkLine"
proof -
  have tw: "takeWhile (\<lambda>c. c \<noteq> CHR '']'') (replicate 95 (CHR ''Z'') @ '']]'' @ nl @ r) = replicate 95 (CHR ''Z'')"
    by (subst takeWhile_append2) auto
  have dw: "dropWhile (\<lambda>c. c \<noteq> CHR '']'') (replicate 95 (CHR ''Z'') @ '']]'' @ nl @ r) = '']]'' @ nl @ r"
    by (subst dropWhile_append2) auto
  show ?thesis
    unfolding linkLine_def wikilinkAt_def using tw dw by (simp add: Let_def)
qed

lemma wikilinkMatches_bigNote: "wikilinkMatches bigNote = [linkLine]"
proof -
  have "linkLine @ nl @ joinWith nl (replicate 130 taskLine) \<noteq> []"
    using linkLine_ends by simp
  then obtain c cs where cs: "linkLine @ nl @ joinWith nl (replicate 130 taskLine) = c # cs"
    unfolding neq_Nil_conv by blast
  have "wikilinkMatches (c # cs) = linkLine # wikilinkMatches (drop (length linkLine) (c # cs))"
    using wikilinkAt_linkLine[of "joinWith nl (replicate 130 taskLine)"] cs by simp
  also have "drop (length linkLine) (c # cs) = nl @ joinWith nl (replicate 130 taskLine)"
    using cs[symmetric] by simp
  finally show ?thesis
    using cs by (simp add: bigNote_eq wikilinkMatches_nl wikilinkMatches_tasks)
qed

lemma extractWikilinks_bigNote: "extractWikilinks bigNote = [linkLine]"
  by (simp add: extractWikilinks_def wikilinkMatches_bigNote unique_def)

lemma extractTags_bigNote: "extractTags bigNote = []"
proof -
  have "CHR ''#'' \<notin> set bigNote" using bigNote_set by auto
  then show ?thesis by (simp add: extractTags_def tagMatches_no_hash unique_def)
qed

lemma extractTaskLines_bigNote:
  "extractTaskLines (linkLine # replicate 130 taskLine) = replicate 130 taskLine"
  by (simp add: extractTaskLines_def isTaskLine_taskLine isTaskLine_linkLine)

lemma extractCommentLines_bigNote:
  "extractCommentLines (linkLine # replicate 130 taskLine) = []"
proof -
  have "\<not> includesStr linkLine ''%%''"
    by (rule not_includes_by_char[of "CHR ''%''"]) (simp_all add: set_linkLine)
  moreover have "\<not> includesStr taskLine ''%%''"
    by (rule not_includes_by_char[of "CHR ''%''"]) (simp_all add: set_taskLine)
  ultimately show ?thesis
    unfolding extractCommentLines_def by (intro commentLoop_none) auto
qed

lemma pickFromTail_uniform:
  "\<forall>e \<in> set es. length (snd e) = len \<Longrightarrow>
     pickFromTail es m u = map fst (take ((m - u) div (len + 1)) es)"
proof (induction es m u rule: pickFromTail.induct)
  case (1 m u)
  then show ?case by simp
next
  case (2 i c rest m u)
  then have c: "length c = len" by simp
  show ?case
  proof (cases "u + (length c + 1) > m")
    case True
    then have "(m - u) div (len + 1) = 0" using c by simp
    then show ?thesis using 2 True by (simp add: Let_def)
  next
    case False
    then have "m - u = (m - (u + (len + 1))) + (len + 1)" using c by simp
    then have "(m - u) div (len + 1) = Suc ((m - (u + (len + 1))) div (len + 1))"
      by (metis div_add_self2 Suc_eq_plus1 add_is_0 zero_neq_one)
    then show ?thesis using 2 False c by (simp add: Let_def)
  qed
qed

lemma take_rev_enum:
  "length ls = n \<Longrightarrow> k \<le> n \<Longrightarrow> map fst (take k (rev (zip [0 ..< n] ls))) = rev [n - k ..< n]"
proof -
  assume a: "length ls = n" "k \<le> n"
  have "take k (rev (zip [0 ..< n] ls)) = rev (drop (n - k) (zip [0 ..< n] ls))"
    using a by (simp add: take_rev)
  also have "map fst \<dots> = rev (map fst (zip (drop (n - k) [0 ..< n]) (drop (n - k) ls)))"
    by (simp add: rev_map drop_zip)
  also have "\<dots> = rev (drop (n - k) [0 ..< n])"
    using a by simp
  finally show ?thesis by (simp add: drop_upt)
qed

lemma sort_rev_upt: "sort (rev [a ..< b]) = [a ..< b]"
  by (rule sorted_distinct_set_unique) simp_all

lemma picked_bigNote:
  "pickedIndices (linkLine # replicate 130 taskLine) 7800 = [53 ..< 131]"
proof -
  let ?ls = "linkLine # replicate 130 taskLine"
  have len: "length ?ls = 131" by simp
  have "\<forall>l \<in> set ?ls. length l = 99"
    by (auto simp: length_taskLine length_linkLine)
  then have "\<forall>e \<in> set (rev (zip [0 ..< length ?ls] ?ls)). length (snd e) = 99"
    by (auto dest: set_zip_rightD simp del: length_Cons length_replicate)
  then have "pickFromTail (rev (zip [0 ..< length ?ls] ?ls)) 7800 0
      = map fst (take 78 (rev (zip [0 ..< length ?ls] ?ls)))"
    using pickFromTail_uniform[of "rev (zip [0 ..< length ?ls] ?ls)" 99 7800 0] by simp
  also have "\<dots> = rev [131 - 78 ..< 131]"
    using take_rev_enum[of ?ls 131 78] len by simp
  finally show ?thesis
    unfolding pickedIndices_def by (simp add: sort_rev_upt)
qed

lemma pushLines_seen: "x \<noteq> [] \<Longrightarrow> x \<in> seen \<Longrightarrow> pushLines (replicate n x) seen = []"
  by (induction n) auto

lemma pushLines_replicate: "x \<noteq> [] \<Longrightarrow> pushLines (replicate (Suc n) x) {} = [x]"
  by (simp add: pushLines_seen)

lemma clip_bigNote:
  "clipFromTailByLine (linkLine # replicate 130 taskLine) 7800 = [taskLine]"
proof -
  let ?ls = "linkLine # replicate 130 taskLine"
  have heads: "findHeadingContext ?ls 53 = []"
  proof -
    have "\<forall>x \<in> set (take 54 ?ls). \<not> isHeadingLine x"
      using isHeadingLine_linkLine isHeadingLine_taskLine
      by (auto dest!: in_set_takeD)
    then show ?thesis by (simp add: findHeadingContext_def filter_empty_conv del: take_Cons_numeral)
  qed
  have lines: "map (\<lambda>idx. ?ls ! idx) [53 ..< 131] = replicate 78 taskLine"
    by (rule nth_equalityI) (auto simp: nth_Cons split: nat.splits)
  have "hd [53 ..< 131 :: nat] = 53" by (simp add: upt_rec_numeral)
  moreover have "[53 ..< 131 :: nat] \<noteq> []" by simp
  ultimately show ?thesis
    unfolding clipFromTailByLine_def picked_bigNote Let_def lines
    using heads pushLines_replicate[of taskLine 77] taskLine_ends(3)
    by (simp add: )
qed

lemma boundedLines_replicate:
  "boundedLines (replicate n x @ rest) m u =
     replicate (min n ((m - u) div (length x + 1))) x
       @ boundedLines rest m (u + min n ((m - u) div (length x + 1)) * (length x + 1))"
proof (induction n arbitrary: u)
  case 0
  then show ?case by simp
next
  case (Suc n)
  show ?case
  proof (cases "u + (length x + 1) > m")
    case True
    then have z: "(m - u) div (length x + 1) = 0" by simp
    have "boundedLines (replicate (Suc n) x @ rest) m u = boundedLines (replicate n x @ rest) m u"
      using True by (simp add: Let_def)
    then show ?thesis using Suc[of u] z by simp
  next
    case False
    then have "m - u = (m - (u + (length x + 1))) + (length x + 1)" by simp
    then have d: "(m - u) div (length x + 1) = Suc ((m - (u + (length x + 1))) div (length x + 1))"
      by (metis div_add_self2 Suc_eq_plus1 add_is_0 zero_neq_one)
    have "boundedLines (replicate (Suc n) x @ rest) m u
        = x # boundedLines (replicate n x @ rest) m (u + (length x + 1))"
      using False by (simp add: Let_def)
    then show ?thesis using Suc[of "u + (length x + 1)"] d by (simp add: ac_simps)
  qed
qed


lemma joinWith_snoc_empty: "xs \<noteq> [] \<Longrightarrow> joinWith sep (xs @ [[]]) = joinWith sep xs @ sep"
  by (simp add: joinWith_append)

lemma joinWith_nlnl: "ys \<noteq> [] \<Longrightarrow> joinWith (nl @ nl) (x # ys) = joinWith nl [x, []] @ nl @ joinWith (nl @ nl) ys"
  by (cases ys) (auto)

lemma joinWith_nonempty: "xs \<noteq> [] \<Longrightarrow> hd xs \<noteq> [] \<Longrightarrow> joinWith sep xs \<noteq> []"
  by (induction sep xs rule: joinWith.induct) auto

lemma tasks_join_nonempty: "joinWith nl (replicate 130 taskLine) \<noteq> []"
  by (rule joinWith_nonempty) (simp_all add: taskLine_ends hd_replicate)

lemma assembled_bigNote:
  "assembleSnapshot bigNote 12000 =
     joinWith nl ([recentHeading, [], taskLine, [], tasksHeading, []] @ replicate 130 taskLine @ [[], linksHeading, [], linkLine])"
proof -
  have budget: "65 * 12000 div 100 = (7800::nat)" by simp
  have clipped: "trim (joinWith nl [taskLine]) = taskLine"
    using taskLine_ends by (simp add: trim_id isSpace_def)
  have keep: "filter (\<lambda>p. p \<noteq> []) [recentHeading, taskLine, tasksHeading, joinWith nl (replicate 130 taskLine), linksHeading, linkLine]
      = [recentHeading, taskLine, tasksHeading, joinWith nl (replicate 130 taskLine), linksHeading, linkLine]"
    using tasks_join_nonempty taskLine_ends linkLine_ends by (simp add: recentHeading_def tasksHeading_def linksHeading_def)
  have r: "replicate 130 taskLine \<noteq> []" by simp
  have parts: "assembleSnapshot bigNote 12000 =
     trim (joinWith (nl @ nl) [recentHeading, taskLine, tasksHeading, joinWith nl (replicate 130 taskLine), linksHeading, linkLine])"
    unfolding assembleSnapshot_def bigNote_lines Let_def extractWikilinks_bigNote
      extractTags_bigNote extractTaskLines_bigNote extractCommentLines_bigNote budget
      clip_bigNote clipped
    using keep r by (simp add: recentHeading_def tasksHeading_def linksHeading_def)
  have j: "joinWith (nl @ nl) [recentHeading, taskLine, tasksHeading, joinWith nl (replicate 130 taskLine), linksHeading, linkLine]
      = joinWith nl ([recentHeading, [], taskLine, [], tasksHeading, []] @ replicate 130 taskLine @ [[], linksHeading, [], linkLine])"
    by (simp add: joinWith_append joinWith_Cons)
  have "trim (joinWith nl ([recentHeading, [], taskLine, [], tasksHeading, []] @ replicate 130 taskLine @ [[], linksHeading, [], linkLine]))
      = joinWith nl ([recentHeading, [], taskLine, [], tasksHeading, []] @ replicate 130 taskLine @ [[], linksHeading, [], linkLine])"
    using linkLine_ends
    by (intro trim_id) (simp_all add: joinWith_append joinWith_Cons recentHeading_def isSpace_def)
  then show ?thesis using parts j by simp
qed

lemma bigLines_split: "splitLines (joinWith nl bigLines) = bigLines"
  by (rule splitLines_join)
     (auto simp: bigLines_def set_taskLine set_linkLine recentHeading_def tasksHeading_def linksHeading_def)

lemma bounded_bigLines: "boundedLines bigLines 12000 0 = bigKept @ [[]]"
proof -
  have pre: "boundedLines ([recentHeading, [], taskLine, [], tasksHeading, []] @ rest) 12000 0
      = [recentHeading, [], taskLine, [], tasksHeading, []] @ boundedLines rest 12000 143" for rest
    by (simp add: Let_def recentHeading_def tasksHeading_def length_taskLine)
  have post: "boundedLines [[], linksHeading, [], linkLine] 12000 11943 = [[], linksHeading, []]"
    by (simp add: Let_def linksHeading_def length_linkLine)
  have blk: "boundedLines (replicate 130 taskLine @ [[], linksHeading, [], linkLine]) 12000 143
      = replicate 118 taskLine @ boundedLines [[], linksHeading, [], linkLine] 12000 11943"
    using boundedLines_replicate[of 130 taskLine "[[], linksHeading, [], linkLine]" 12000 143]
    by (simp add: length_taskLine)
  show ?thesis
    unfolding bigLines_def bigKept_def pre blk post by simp
qed

lemma big_output:
  "buildObsidianSafeSnapshot bigNote 12000 = joinWith nl bigKept @ nl @ nl @ truncationMarker"
proof -
  have over: "\<not> length bigNote \<le> 12000" by (simp add: bigNote_length)
  have asm: "assembleSnapshot bigNote 12000 = joinWith nl bigLines"
    by (simp add: assembled_bigNote bigLines_def)
  have "length (joinWith nl bigLines) = 13275"
    by (simp add: bigLines_def length_joinWith length_taskLine length_linkLine
        sum_list_replicate recentHeading_def tasksHeading_def linksHeading_def nl_def)
  then have over2: "\<not> length (assembleSnapshot bigNote 12000) \<le> 12000"
    using asm by simp
  have "trim (joinWith nl (bigKept @ [[]])) = trim (joinWith nl bigKept @ nl)"
    by (subst joinWith_snoc_empty) (simp_all add: bigKept_def)
  also have "\<dots> = trim (joinWith nl bigKept)"
    using trim_snoc_space[of "CHR ''\<newline>''" "joinWith nl bigKept"]
    by (simp add: nl_def isSpace_def)
  also have "\<dots> = joinWith nl bigKept"
    by (rule trim_id)
       (simp_all add: bigKept_def joinWith_append joinWith_Cons recentHeading_def linksHeading_def isSpace_def)
  finally have t: "trim (joinWith nl (bigKept @ [[]])) = joinWith nl bigKept" .
  have ne: "bigNote \<noteq> []" using bigNote_length by auto
  show ?thesis
    unfolding buildObsidianSafeSnapshot_def bigNote_normal Let_def
    using over over2 ne by (simp add: asm bigLines_split bounded_bigLines t)
qed

lemma big_output_length: "length (buildObsidianSafeSnapshot bigNote 12000) = 12041"
  unfolding big_output
  by (simp add: bigKept_def length_joinWith length_taskLine sum_list_replicate
      recentHeading_def tasksHeading_def linksHeading_def nl_def truncationMarker_def)


section \<open>The truncator on notes with one line of 12000 characters\<close>

lemma length_longLine: "length longLine = 12000"
  by (simp add: longLine_def)

lemma set_longLine: "set longLine = {CHR ''b''}"
  by (simp add: longLine_def)


lemma longLine_neq: "length s < 12000 \<Longrightarrow> longLine \<noteq> s"
proof
  assume "length s < 12000" "longLine = s"
  then have "length longLine < 12000" by simp
  then show False by (simp add: length_longLine)
qed

lemma gapNote_set: "set gapNote \<subseteq> set ''first'' \<union> {CHR ''b'', CHR ''\<newline>''} \<union> set ''last''"
  using set_joinWith[of nl "[''first'', longLine, ''last'']"]
  by (auto simp: gapNote_def set_longLine nl_def)

lemma gapNote_lines: "splitLines gapNote = [''first'', longLine, ''last'']"
  unfolding gapNote_def by (rule splitLines_join) (auto simp: set_longLine)

lemma gapNote_normal: "trim (normalizeNewlines gapNote) = gapNote"
proof -
  have "normalizeNewlines gapNote = gapNote"
    using gapNote_set by (intro normalizeNewlines_id) auto
  moreover have "trim gapNote = gapNote"
    by (rule trim_id) (simp_all add: gapNote_def isSpace_def)
  ultimately show ?thesis by simp
qed

lemma gapNote_length: "length gapNote = 12011"
  by (simp add: gapNote_def length_longLine nl_def)

lemma gapNote_picked: "pickedIndices [''first'', longLine, ''last''] 7800 = [0, 2]"
  by (simp add: pickedIndices_def Let_def length_longLine upt_rec_numeral)

lemma gapNote_clip: "clipFromTailByLine [''first'', longLine, ''last''] 7800 = [''first'', ''last'']"
  by (simp add: clipFromTailByLine_def gapNote_picked Let_def findHeadingContext_def
      isHeadingLine_def)

lemma gapNote_output:
  "buildObsidianSafeSnapshot gapNote 12000 = ''## Recent Snapshot'' @ nl @ nl @ ''first'' @ nl @ ''last''"
proof -
  have b: "65 * 12000 div 100 = (7800::nat)" by simp
  have "assembleSnapshot gapNote 12000 =
      trim (joinWith (nl @ nl) (filter (\<lambda>p. p \<noteq> [])
        [''## Recent Snapshot'', trim (joinWith nl [''first'', ''last''])]))"
    using gapNote_set by (subst assemble_plain) (auto simp: gapNote_lines b gapNote_clip)
  also have "\<dots> = ''## Recent Snapshot'' @ nl @ nl @ ''first'' @ nl @ ''last''"
    by (simp add: trim_def nl_def isSpace_def)
  finally have a: "assembleSnapshot gapNote 12000 = ''## Recent Snapshot'' @ nl @ nl @ ''first'' @ nl @ ''last''" .
  have "gapNote \<noteq> []" using gapNote_length by auto
  then show ?thesis
    unfolding buildObsidianSafeSnapshot_def gapNote_normal Let_def
    by (simp add: gapNote_length a nl_def)
qed







section \<open>Token budgets\<close>

lemma estimateTokens_le: "estimateTokens s \<le> b \<longleftrightarrow> int (length s) \<le> 4 * b"
  by (auto simp: estimateTokens_def)

lemma estimateTokens_nonneg: "0 \<le> estimateTokens s"
  by (simp add: estimateTokens_def)

lemma keepLines_length:
  "used \<le> b \<Longrightarrow> int (sum_list (map (\<lambda>l. length l + 1) (keepLines ls b used))) \<le> 4 * (b - used)"
proof (induction ls b used rule: keepLines.induct)
  case (1 tokenBudget used)
  then show ?case by simp
next
  case (2 line rest tokenBudget used)
  let ?cost = "estimateTokens (line @ nl)"
  show ?case
  proof (cases "used + ?cost > tokenBudget")
    case True
    then show ?thesis using 2 by (simp add: Let_def)
  next
    case False
    then have "int (sum_list (map (\<lambda>l. length l + 1) (keepLines rest tokenBudget (used + ?cost))))
        \<le> 4 * (tokenBudget - (used + ?cost))"
      using 2(1)[OF refl] by simp
    moreover have "int (length line + 1) \<le> 4 * ?cost"
      using estimateTokens_le[of "line @ nl" ?cost] by (simp add: nl_def)
    ultimately show ?thesis using False by (simp add: Let_def)
  qed
qed

lemma trimTextToTokenBudget_length:
  "0 \<le> b \<Longrightarrow> int (length (trimTextToTokenBudget t b)) \<le> 4 * b"
proof -
  assume b: "0 \<le> b"
  let ?n = "trim (normalizeNewlines t)"
  consider (none) "?n = [] \<or> b \<le> 0"
    | (fits) "\<not> (?n = [] \<or> b \<le> 0)" "estimateTokens ?n \<le> b"
    | (cut) "\<not> (?n = [] \<or> b \<le> 0)" "\<not> estimateTokens ?n \<le> b"
    by blast
  then show ?thesis
  proof cases
    case none
    then show ?thesis using b by (simp add: trimTextToTokenBudget_def Let_def)
  next
    case fits
    then show ?thesis
      using estimateTokens_le[of ?n b] by (simp add: trimTextToTokenBudget_def Let_def)
  next
    case cut
    let ?k = "keepLines (splitLines ?n) b 0"
    have "length (trim (joinWith nl ?k)) \<le> length (joinWith nl ?k)" by (rule length_trim_le)
    also have "\<dots> \<le> sum_list (map (\<lambda>l. length l + 1) ?k)" by (rule length_join_nl_le)
    finally have "int (length (trim (joinWith nl ?k))) \<le> int (sum_list (map (\<lambda>l. length l + 1) ?k))"
      by simp
    also have "\<dots> \<le> 4 * (b - 0)" using b by (intro keepLines_length) simp
    finally show ?thesis using cut by (simp add: trimTextToTokenBudget_def Let_def)
  qed
qed

lemma trimTextToTokenBudget_none: "b \<le> 0 \<Longrightarrow> trimTextToTokenBudget t b = []"
  by (simp add: trimTextToTokenBudget_def Let_def)

lemma trimTextToTokenBudget_tokens:
  "0 \<le> b \<Longrightarrow> estimateTokens (trimTextToTokenBudget t b) \<le> b"
  using trimTextToTokenBudget_length by (simp add: estimateTokens_le)

lemma budget_values:
  "MAX_SNAPSHOT_TOKENS = 3000" "GOVERNANCE_TOKEN_BUDGET = 1200" "DAILY_TOKEN_BUDGET = 1800"
  by (simp_all add: MAX_SNAPSHOT_TOKENS_def GOVERNANCE_TOKEN_BUDGET_def DAILY_TOKEN_BUDGET_def
      MAX_SNAPSHOT_CHARS_def)

lemma governanceBlock_tokens: "estimateTokens (governanceBlock g) \<le> GOVERNANCE_TOKEN_BUDGET"
proof (cases "g = []")
  case True
  then show ?thesis by (simp add: governanceBlock_def estimateTokens_def budget_values)
next
  case False
  let ?b = "min (estimateTokens g) GOVERNANCE_TOKEN_BUDGET"
  have "0 \<le> ?b" using estimateTokens_nonneg[of g] by (simp add: budget_values)
  then have "estimateTokens (trimTextToTokenBudget g ?b) \<le> ?b"
    by (rule trimTextToTokenBudget_tokens)
  then show ?thesis using False by (simp add: governanceBlock_def)
qed

lemma dailyBlock_tokens:
  "estimateTokens (dailyBlock d r) \<le> DAILY_TOKEN_BUDGET
   \<and> (0 \<le> r \<longrightarrow> estimateTokens (dailyBlock d r) \<le> r)"
proof (cases "d \<noteq> [] \<and> r > 0")
  case True
  let ?b = "min r DAILY_TOKEN_BUDGET"
  have "0 \<le> ?b" using True by (simp add: budget_values)
  then have "estimateTokens (trimTextToTokenBudget d ?b) \<le> ?b"
    by (rule trimTextToTokenBudget_tokens)
  then show ?thesis using True by (simp add: dailyBlock_def)
next
  case False
  then have "dailyBlock d r = []" by (auto simp: dailyBlock_def)
  then show ?thesis by (simp add: estimateTokens_def budget_values)
qed

lemma unified_length:
  assumes "GOVERNANCE_TOKEN_BUDGET + 6 \<le> tb"
  shows "int (length (buildUnifiedSnapshot d g tb)) \<le> 4 * tb + 43"
proof -
  let ?G = "governanceBlock g"
  let ?r = "remainingAfterGovernance g tb"
  let ?D = "dailyBlock d ?r"
  let ?parts = "(if ?G \<noteq> [] then [govHeader @ ?G] else [])
            @ (if ?D \<noteq> [] then [dailyHeader @ ?D] else [])"
  have out: "length (buildUnifiedSnapshot d g tb) \<le> length (joinWith separator ?parts)"
    by (simp add: buildUnifiedSnapshot_def Let_def length_trim_le)
  have G: "int (length ?G) \<le> 4800"
    using governanceBlock_tokens[of g] by (simp add: estimateTokens_le budget_values)
  have tb: "1206 \<le> tb" using assms by (simp add: budget_values)
  have hdr: "length govHeader = 24" "length dailyHeader = 36" "length separator = 7"
    by (simp_all add: govHeader_def dailyHeader_def separator_def nl_def)
  show ?thesis
  proof (cases "?G = []")
    case True
    then have r: "?r = tb" by (simp add: remainingAfterGovernance_def)
    have "int (length ?D) \<le> 4 * tb"
      using dailyBlock_tokens[of d tb] tb r by (simp add: estimateTokens_le)
    then show ?thesis using out True hdr by (cases "?D = []") simp_all
  next
    case False
    then have r: "?r = tb - estimateTokens (govHeader @ ?G)"
      by (simp add: remainingAfterGovernance_def Let_def)
    have gtok: "int (length (govHeader @ ?G)) \<le> 4 * estimateTokens (govHeader @ ?G)"
      using estimateTokens_le[of "govHeader @ ?G" "estimateTokens (govHeader @ ?G)"] by simp
    have "estimateTokens (govHeader @ ?G) \<le> 1206"
      using G hdr by (simp add: estimateTokens_le)
    then have r0: "0 \<le> ?r" using tb r by simp
    then have "int (length ?D) \<le> 4 * ?r"
      using dailyBlock_tokens[of d ?r] by (simp add: estimateTokens_le)
    then have "int (length (govHeader @ ?G)) + int (length ?D) \<le> 4 * tb"
      using gtok r by simp
    then show ?thesis using out False hdr by (cases "?D = []") simp_all
  qed
qed

lemma trimTextToTokenBudget_whole:
  assumes "trim (normalizeNewlines s) = s" "s \<noteq> []" "estimateTokens s \<le> b"
  shows "trimTextToTokenBudget s b = s"
proof -
  have "0 < estimateTokens s" using assms(2) by (cases s) (simp_all add: estimateTokens_def)
  then have "0 < b" using assms(3) by simp
  then show ?thesis using assms by (simp add: trimTextToTokenBudget_def Let_def)
qed

section \<open>The length of the truncated snapshot\<close>

text \<open>
  How far the length can go. The text returned by \<^verbatim>\<open>buildObsidianSafeSnapshot\<close> is
  within the budget whenever it does not end with the "truncated safely" marker. When the
  final guard fires, the kept lines are within the budget and the marker, with the two
  line breaks before it, is appended after that count: the result is within the budget
  plus 67 characters. The snapshot that a rebuild stores in the entry of the day is the
  unified snapshot, of at most 12043 characters.
\<close>

lemma stored_snapshot_length:
  "int (length (rebuildSnapshot dayState normalizedOutput governanceContext))
     \<le> int MAX_SNAPSHOT_CHARS + 43"
  using unified_length[of MAX_SNAPSHOT_TOKENS]
  by (simp add: rebuildSnapshot_def Let_def budget_values MAX_SNAPSHOT_CHARS_def)

theorem snapshot_length_bound:
  "length (buildObsidianSafeSnapshot raw maxChars) \<le> maxChars + 67
   \<and> (\<not> suffix (nl @ nl @ truncationMarker) (buildObsidianSafeSnapshot raw maxChars)
        \<longrightarrow> length (buildObsidianSafeSnapshot raw maxChars) \<le> maxChars)
   \<and> int (length (rebuildSnapshot dayState normalizedOutput governanceContext))
        \<le> int MAX_SNAPSHOT_CHARS + 43"
proof -
  define norm where "norm = trim (normalizeNewlines raw)"
  define assembled where "assembled = assembleSnapshot norm maxChars"
  consider (empty) "norm = []"
    | (fits) "norm \<noteq> []" "length norm \<le> maxChars"
    | (assembled) "norm \<noteq> []" "\<not> length norm \<le> maxChars" "length assembled \<le> maxChars"
    | (guard) "norm \<noteq> []" "\<not> length norm \<le> maxChars" "\<not> length assembled \<le> maxChars"
    by blast
  then have "length (buildObsidianSafeSnapshot raw maxChars) \<le> maxChars + 67
   \<and> (\<not> suffix (nl @ nl @ truncationMarker) (buildObsidianSafeSnapshot raw maxChars)
        \<longrightarrow> length (buildObsidianSafeSnapshot raw maxChars) \<le> maxChars)"
  proof cases
    case empty
    then show ?thesis by (simp add: buildObsidianSafeSnapshot_def norm_def)
  next
    case fits
    then show ?thesis by (simp add: buildObsidianSafeSnapshot_def norm_def)
  next
    case assembled
    then show ?thesis
      by (simp add: buildObsidianSafeSnapshot_def norm_def assembled_def Let_def)
  next
    case guard
    then have eq: "buildObsidianSafeSnapshot raw maxChars =
        trim (joinWith nl (boundedLines (splitLines assembled) maxChars 0)) @ nl @ nl @ truncationMarker"
      by (simp add: buildObsidianSafeSnapshot_def norm_def assembled_def Let_def)
    have "length (buildObsidianSafeSnapshot raw maxChars) \<le> maxChars + 67"
      unfolding eq using length_bounded_join[of "splitLines assembled" maxChars] marker_length
      by simp
    moreover have "suffix (nl @ nl @ truncationMarker) (buildObsidianSafeSnapshot raw maxChars)"
      unfolding eq by (simp add: suffix_def)
    ultimately show ?thesis by simp
  qed
  then show ?thesis using stored_snapshot_length by blast
qed

text \<open>
  The bound at two inputs for a budget of 20: one where the final guard fires and one
  that fits the budget and carries no marker.
\<close>

theorem snapshot_length_bound_witness:
  "length (buildObsidianSafeSnapshot ''one two three four five six seven'' 20) \<le> 20 + 67 \<and>
   \<not> suffix (nl @ nl @ truncationMarker) (buildObsidianSafeSnapshot ''intro line one'' 20) \<and>
   length (buildObsidianSafeSnapshot ''intro line one'' 20) \<le> 20 \<and>
   int (length (rebuildSnapshot JNull standup [])) \<le> int MAX_SNAPSHOT_CHARS + 43"
proof -
  have ns: "\<not> suffix (nl @ nl @ truncationMarker) (buildObsidianSafeSnapshot ''intro line one'' 20)"
    by code_simp
  show ?thesis
    using snapshot_length_bound[of "''one two three four five six seven''" 20 JNull standup "[]"]
      snapshot_length_bound[of "''intro line one''" 20 JNull standup "[]"] ns
    by blast
qed

text \<open>
  Claim C1: the string returned by \<^verbatim>\<open>buildObsidianSafeSnapshot\<close> never exceeds the
  character budget, also when the final guard fires and the marker is appended. The two
  earlier returns of the function are behind a test of the length against the budget;
  the last one is not, and at the configured budget of 12000 characters the claim fails.
  For the note \<open>bigNote\<close> the assembled text has 13275 characters, the final guard
  keeps lines that cost 11976 characters, and the result with the marker has 12041
  characters.
\<close>

theorem snapshot_exceeds_budget:
  "length (buildObsidianSafeSnapshot bigNote MAX_SNAPSHOT_CHARS) = 12041
   \<and> \<not> length (buildObsidianSafeSnapshot bigNote MAX_SNAPSHOT_CHARS) \<le> MAX_SNAPSHOT_CHARS"
  by (simp add: MAX_SNAPSHOT_CHARS_def big_output_length)

section \<open>The budget split of the unified snapshot\<close>

text \<open>
  What the budgets bound. The governance budget is 40% and the daily budget 60% of the
  total of 3000 tokens. The governance text under its header is within the governance
  budget and the daily text under its header is within the daily budget. The headers and
  the separator are not trimmed with them, and for a total budget of at least 1206 tokens
  the combined output is within the total budget plus 11 tokens.
\<close>

theorem budget_split_bounds:
  "10 * GOVERNANCE_TOKEN_BUDGET = 4 * MAX_SNAPSHOT_TOKENS
   \<and> 10 * DAILY_TOKEN_BUDGET = 6 * MAX_SNAPSHOT_TOKENS
   \<and> estimateTokens (governanceBlock governanceContext) \<le> GOVERNANCE_TOKEN_BUDGET
   \<and> estimateTokens (dailyBlock dailyText (remainingAfterGovernance governanceContext tokenBudget))
        \<le> DAILY_TOKEN_BUDGET
   \<and> (GOVERNANCE_TOKEN_BUDGET + 6 \<le> tokenBudget \<longrightarrow>
        estimateTokens (buildUnifiedSnapshot dailyText governanceContext tokenBudget)
          \<le> tokenBudget + 11)"
proof -
  have "GOVERNANCE_TOKEN_BUDGET + 6 \<le> tokenBudget \<Longrightarrow>
        estimateTokens (buildUnifiedSnapshot dailyText governanceContext tokenBudget)
          \<le> tokenBudget + 11"
    using unified_length[of tokenBudget dailyText governanceContext]
    by (simp add: estimateTokens_le)
  then show ?thesis
    using governanceBlock_tokens dailyBlock_tokens by (simp add: budget_values)
qed

text \<open>The theorem at the total budget of 3000 tokens.\<close>

theorem budget_split_bounds_witness:
  "GOVERNANCE_TOKEN_BUDGET + 6 \<le> MAX_SNAPSHOT_TOKENS
   \<and> estimateTokens (buildUnifiedSnapshot fullDaily soulContext MAX_SNAPSHOT_TOKENS)
        \<le> MAX_SNAPSHOT_TOKENS + 11
   \<and> estimateTokens (governanceBlock soulContext) \<le> GOVERNANCE_TOKEN_BUDGET"
  using budget_split_bounds[of soulContext fullDaily MAX_SNAPSHOT_TOKENS]
  by (simp add: budget_values)

lemma headingMatch_not_hash: "s \<noteq> [] \<Longrightarrow> hd s \<noteq> CHR ''#'' \<Longrightarrow> headingMatch s = None"
  by (cases s) (simp_all add: headingMatch_def Let_def)

lemma toUpperCase_replicate_a:
  "toUpperCase (replicate n (CHR ''a'')) = replicate n (CHR ''A'')"
  by (simp add: toUpperCase_def map_replicate lowerLetters_def upperLetters_def)

lemma soulDoc_lines: "splitLines soulDoc = [''## Safety'', replicate 4757 (CHR ''a'')]"
proof -
  have "soulDoc = joinWith nl [''## Safety'', replicate 4757 (CHR ''a'')]"
    by (simp add: soulDoc_def)
  then show ?thesis
    using splitLines_join[of "[''## Safety'', replicate 4757 (CHR ''a'')]"] by simp
qed

lemma soulDoc_trim: "trim soulDoc = soulDoc"
  by (rule trim_id) (simp_all add: soulDoc_def isSpace_def)

lemma soul_heading:
  "headingMatch ''## Safety'' = Some ''Safety''" "hasCriticalKeyword ''## Safety''"
  "\<not> isStrongConstraint ''## Safety''"
  by code_simp+

lemma soul_scan: "scanSections [''## Safety'', replicate 4757 (CHR ''a'')] = [(Some ''Safety'', soulDoc)]"
proof -
  let ?A = "replicate 4757 (CHR ''a'')"
  have a: "headingMatch ?A = None"
    by (rule headingMatch_not_hash) (simp_all add: hd_replicate)
  have j: "joinWith nl [''## Safety'', ?A] = soulDoc"
    by (simp add: soulDoc_def)
  have s1: "scanLine initialScan ''## Safety''
      = \<lparr>criticalSections = [], currentSection = Some ''Safety'',
         currentContent = [''## Safety''], inCriticalSection = True\<rparr>"
    by (simp add: scanLine_def soul_heading initialScan_def pushSection_def)
  have s2: "scanLine \<lparr>criticalSections = [], currentSection = Some ''Safety'',
         currentContent = [''## Safety''], inCriticalSection = True\<rparr> ?A
      = \<lparr>criticalSections = [], currentSection = Some ''Safety'',
         currentContent = [''## Safety'', ?A], inCriticalSection = True\<rparr>"
    by (simp add: scanLine_def a)
  have "scanSections [''## Safety'', ?A]
      = [(Some ''Safety'', trim (joinWith nl [''## Safety'', ?A]))]"
    by (simp add: scanSections_def s1 s2 pushSection_def del: joinWith.simps)
  then show ?thesis by (simp only: j soulDoc_trim)
qed

lemma soul_strong: "strongConstraints [''## Safety'', replicate 4757 (CHR ''a'')] = []"
proof -
  have "\<not> includesStr (replicate 4757 (CHR ''A'')) ''NEVER''"
    "\<not> includesStr (replicate 4757 (CHR ''A'')) ''ALWAYS''"
    "\<not> includesStr (replicate 4757 (CHR ''A'')) ''MANDATORY''"
    by (rule not_includes_by_char[of "CHR ''N''"], simp, simp,
        rule not_includes_by_char[of "CHR ''L''"], simp, simp,
        rule not_includes_by_char[of "CHR ''N''"], simp, simp)
  then have "\<not> isStrongConstraint (replicate 4757 (CHR ''a''))"
    by (simp add: isStrongConstraint_def toUpperCase_replicate_a)
  then show ?thesis by (simp add: strongConstraints_def soul_heading)
qed

lemma soul_extract: "extractCriticalConstraints soulDoc ''SOUL.md'' = soulDoc"
proof -
  have "soulDoc \<noteq> []" by (simp add: soulDoc_def)
  then show ?thesis
    by (simp add: extractCriticalConstraints_def soulDoc_lines soul_scan soul_strong soulDoc_trim)
qed

lemma soulContext_eq: "soulContext = ''## Behavioral Constraints (SOUL)'' @ nl @ soulDoc"
proof -
  have "soulDoc \<noteq> []" by (simp add: soulDoc_def)
  then show ?thesis
    by (simp add: soulContext_def buildGovernanceContext_def soul_extract fileLabels_def)
qed

lemma soulContext_facts:
  "length soulContext = 4800" "soulContext \<noteq> []" "trim (normalizeNewlines soulContext) = soulContext"
proof -
  show l: "length soulContext = 4800" by (simp add: soulContext_eq soulDoc_def nl_def)
  then show "soulContext \<noteq> []" by auto
  have "set soulContext \<subseteq> set ''## Behavioral Constraints (SOUL)'' \<union> set nl \<union> set ''## Safety''
      \<union> {CHR ''a''}"
    by (auto simp: soulContext_eq soulDoc_def)
  then have "CHR 0x0D \<notin> set soulContext" by (auto simp: nl_def)
  then have "normalizeNewlines soulContext = soulContext" by (rule normalizeNewlines_id)
  moreover have "trim soulContext = soulContext"
    by (rule trim_id) (simp_all add: soulContext_eq soulDoc_def isSpace_def)
  ultimately show "trim (normalizeNewlines soulContext) = soulContext" by simp
qed

lemma fullDaily_facts:
  "length fullDaily = 7176" "fullDaily \<noteq> []" "trim (normalizeNewlines fullDaily) = fullDaily"
proof -
  show "length fullDaily = 7176" "fullDaily \<noteq> []" by (simp_all add: fullDaily_def)
  have "normalizeNewlines fullDaily = fullDaily"
    by (rule normalizeNewlines_id) (simp add: fullDaily_def)
  then show "trim (normalizeNewlines fullDaily) = fullDaily"
    by (simp add: fullDaily_def trim_replicate isSpace_def)
qed

lemma fullDaily_content:
  "buildTokenAwareSnapshot [] (buildObsidianSafeSnapshot fullDaily MAX_SNAPSHOT_CHARS) DAILY_TOKEN_BUDGET
     = fullDaily"
proof -
  have s: "buildObsidianSafeSnapshot fullDaily MAX_SNAPSHOT_CHARS = fullDaily"
    by (simp add: buildObsidianSafeSnapshot_def fullDaily_facts MAX_SNAPSHOT_CHARS_def)
  have t: "trimTextToTokenBudget fullDaily 1800 = fullDaily"
    by (rule trimTextToTokenBudget_whole)
       (simp_all add: fullDaily_facts estimateTokens_def)
  show ?thesis
    by (simp add: buildTokenAwareSnapshot_def s budget_values fullDaily_facts t Let_def)
qed

lemma soul_unified:
  "buildUnifiedSnapshot fullDaily soulContext 3000
     = govHeader @ soulContext @ separator @ dailyHeader @ fullDaily"
proof -
  have g: "governanceBlock soulContext = soulContext"
  proof -
    have "estimateTokens soulContext = 1200" by (simp add: estimateTokens_def soulContext_facts)
    moreover have "trimTextToTokenBudget soulContext 1200 = soulContext"
      by (rule trimTextToTokenBudget_whole) (simp_all add: soulContext_facts estimateTokens_def)
    ultimately show ?thesis by (simp add: governanceBlock_def budget_values soulContext_facts)
  qed
  have r: "remainingAfterGovernance soulContext 3000 = 1794"
    by (simp add: remainingAfterGovernance_def g soulContext_facts Let_def estimateTokens_def
        govHeader_def nl_def)
  have d: "dailyBlock fullDaily 1794 = fullDaily"
  proof -
    have "trimTextToTokenBudget fullDaily 1794 = fullDaily"
      by (rule trimTextToTokenBudget_whole) (simp_all add: fullDaily_facts estimateTokens_def)
    then show ?thesis by (simp add: dailyBlock_def budget_values fullDaily_facts)
  qed
  have "trim (govHeader @ soulContext @ separator @ dailyHeader @ fullDaily)
      = govHeader @ soulContext @ separator @ dailyHeader @ fullDaily"
    by (rule trim_id) (simp_all add: govHeader_def fullDaily_def isSpace_def)
  then show ?thesis
    by (simp add: buildUnifiedSnapshot_def g r d Let_def soulContext_facts fullDaily_facts)
qed

text \<open>
  Claim C2: in the unified snapshot the governance block takes at most 40% and the daily
  block at most 60% of the total token budget, and the combined output is within the
  total budget. \<^verbatim>\<open>buildUnifiedSnapshot\<close> charges the governance block with its header
  against \<^verbatim>\<open>remaining\<close>, and charges neither the daily header nor the separator; the
  claim fails on a rebuild with the governance file \<open>soulDoc\<close> and the daily note
  \<open>fullDaily\<close>. The governance context has 4800 characters and is kept whole; with its
  header the governance block is 1206 tokens, above the 1200 of the governance budget.
  The daily note fits the 1794 tokens that remain and is kept whole. The snapshot has
  12043 characters, 3011 tokens, above the total budget of 3000.
\<close>

theorem stored_snapshot_exceeds_total_budget:
  "rebuildSnapshot JNull fullDaily (buildGovernanceContext [(''SOUL.md'', soulDoc)])
     = govHeader @ soulContext @ separator @ dailyHeader @ fullDaily
   \<and> estimateTokens (govHeader @ governanceBlock soulContext) = 1206
   \<and> \<not> estimateTokens (govHeader @ governanceBlock soulContext) \<le> GOVERNANCE_TOKEN_BUDGET
   \<and> length (rebuildSnapshot JNull fullDaily (buildGovernanceContext [(''SOUL.md'', soulDoc)])) = 12043
   \<and> estimateTokens (rebuildSnapshot JNull fullDaily (buildGovernanceContext [(''SOUL.md'', soulDoc)]))
       = 3011
   \<and> \<not> estimateTokens (rebuildSnapshot JNull fullDaily (buildGovernanceContext [(''SOUL.md'', soulDoc)]))
         \<le> MAX_SNAPSHOT_TOKENS"
proof -
  have d: "deltaTextOf JNull fullDaily = []" by (simp add: deltaTextOf_def)
  have e: "rebuildSnapshot JNull fullDaily (buildGovernanceContext [(''SOUL.md'', soulDoc)])
      = govHeader @ soulContext @ separator @ dailyHeader @ fullDaily"
    using fullDaily_content soul_unified
    by (simp add: rebuildSnapshot_def d Let_def budget_values soulContext_def)
  have l: "length (govHeader @ soulContext @ separator @ dailyHeader @ fullDaily) = 12043"
    by (simp add: govHeader_def dailyHeader_def separator_def nl_def soulContext_facts fullDaily_facts)
  have g: "governanceBlock soulContext = soulContext"
  proof -
    have "estimateTokens soulContext = 1200" by (simp add: estimateTokens_def soulContext_facts)
    moreover have "trimTextToTokenBudget soulContext 1200 = soulContext"
      by (rule trimTextToTokenBudget_whole) (simp_all add: soulContext_facts estimateTokens_def)
    ultimately show ?thesis by (simp add: governanceBlock_def budget_values soulContext_facts)
  qed
  have b: "estimateTokens (govHeader @ governanceBlock soulContext) = 1206"
    by (simp add: g estimateTokens_def govHeader_def nl_def soulContext_facts)
  show ?thesis
    unfolding e using l b by (simp add: estimateTokens_def budget_values)
qed

section \<open>Wikilinks and tags in the truncated snapshot\<close>




section \<open>Whole lines\<close>




section \<open>The retained excerpt\<close>

text \<open>
  Claim C7, as the code has it. \<^verbatim>\<open>clipFromTailByLine\<close> selects whole lines greedily
  from the last line to the first: the selected indices are in document order, their
  lines cost (length plus one each) no more than the clip budget, and a line is selected
  exactly when its cost still fits next to the lines selected after it. A line that does
  not fit is passed over and the scan goes on, so the selection is not always a
  contiguous suffix. The lines returned are the selected lines and the headings at or
  before the first of them.
\<close>

theorem clip_greedy_selection:
  "sorted (pickedIndices lines maxChars) \<and> distinct (pickedIndices lines maxChars)
   \<and> (\<forall>i \<in> set (pickedIndices lines maxChars). i < length lines)
   \<and> sum_list (map (lineCost lines) (pickedIndices lines maxChars)) \<le> maxChars
   \<and> (\<forall>k < length lines.
         k \<in> set (pickedIndices lines maxChars) \<longleftrightarrow>
           sum_list (map (lineCost lines) (filter (\<lambda>j. k < j) (pickedIndices lines maxChars)))
             + lineCost lines k \<le> maxChars)
   \<and> (if pickedIndices lines maxChars = [] then clipFromTailByLine lines maxChars = []
       else set (clipFromTailByLine lines maxChars) =
              set (findHeadingContext lines (hd (pickedIndices lines maxChars)))
                \<union> (\<lambda>i. lines ! i) ` set (pickedIndices lines maxChars))"
  using picked_props[of lines maxChars] picked_total[of lines maxChars]
    picked_greedy[of _ lines maxChars] clip_set[of lines maxChars]
  by (simp add: clipFromTailByLine_def)

text \<open>The theorem at the lines of \<open>gapNote\<close>: the long line at index 1 is not selected.\<close>

theorem clip_greedy_selection_witness:
  "pickedIndices [''first'', longLine, ''last''] 7800 = [0, 2]
   \<and> (1::nat) < length [''first'', longLine, ''last'']
   \<and> 1 \<notin> set (pickedIndices [''first'', longLine, ''last''] 7800)
   \<and> \<not> sum_list (map (lineCost [''first'', longLine, ''last''])
            (filter (\<lambda>j. 1 < j) (pickedIndices [''first'', longLine, ''last''] 7800)))
          + lineCost [''first'', longLine, ''last''] 1 \<le> 7800
   \<and> set (clipFromTailByLine [''first'', longLine, ''last''] 7800)
       = set (findHeadingContext [''first'', longLine, ''last''] 0) \<union> {''first'', ''last''}"
  using clip_greedy_selection[of "[''first'', longLine, ''last'']" 7800]
  by (simp add: gapNote_picked lineCost_def length_longLine)

text \<open>
  Claim C7 as stated fails at \<open>gapNote\<close> and the budget of 12000 characters: the
  retained lines are the first and the last line of the note, with the long line between
  them left out. They are not a suffix of the lines of the note.
\<close>

theorem retained_lines_not_contiguous:
  "splitLines gapNote = [''first'', longLine, ''last'']
   \<and> MAX_SNAPSHOT_CHARS < length gapNote
   \<and> clipFromTailByLine (splitLines gapNote) (65 * MAX_SNAPSHOT_CHARS div 100) = [''first'', ''last'']
   \<and> \<not> suffix [''first'', ''last''] (splitLines gapNote)
   \<and> buildObsidianSafeSnapshot gapNote MAX_SNAPSHOT_CHARS
       = ''## Recent Snapshot'' @ nl @ nl @ ''first'' @ nl @ ''last''"
proof -
  have "longLine \<noteq> ''first''" by (simp add: longLine_neq)
  then have "\<not> suffix [''first'', ''last''] [''first'', longLine, ''last'']"
    by (auto simp: suffix_def Cons_eq_append_conv append_eq_Cons_conv)
  then show ?thesis
    by (simp add: MAX_SNAPSHOT_CHARS_def gapNote_lines gapNote_length gapNote_clip gapNote_output)
qed

section \<open>The delta\<close>

lemma jsSlice_nat: "jsSlice (int n) xs = drop n xs"
  by (simp add: jsSlice_def)

text \<open>
  Claim C4, as the code has it. With no prior entry for the day the delta is empty. With
  a prior entry whose line count is \<open>n\<close>, the delta is empty when the current line count
  is at most \<open>n\<close>, and otherwise it is the lines from index \<open>n\<close> to the end, joined and
  passed through \<^verbatim>\<open>trim()\<close>: all white space at both ends of that text is removed,
  blank lines and also the indentation of its first line and the trailing blanks of its
  last line.
\<close>

theorem delta_is_trimmed_tail:
  "deltaTextOf JNull normalizedOutput = []
   \<and> (truthy dayState \<and> getProp dayState ''lastLineCount'' = Some (JNum (int n)) \<longrightarrow>
        deltaTextOf dayState normalizedOutput =
          (if n < lineCountOf normalizedOutput
           then trim (joinWith nl (drop n (splitLines normalizedOutput))) else []))
   \<and> (truthy dayState \<and> getProp dayState ''lastLineCount'' = Some (JNum (int (length prior)))
        \<and> splitLines normalizedOutput = prior @ added \<and> added \<noteq> [] \<and> normalizedOutput \<noteq> [] \<longrightarrow>
        deltaTextOf dayState normalizedOutput = trim (joinWith nl added))"
  by (auto simp: deltaTextOf_def jsSlice_nat lineCountOf_def)

text \<open>The theorem at a log grown from two lines to three, and at a checkpoint of three.\<close>

theorem delta_is_trimmed_tail_witness:
  "truthy (priorEntry 2) \<and> getProp (priorEntry 2) ''lastLineCount'' = Some (JNum (int 2))
   \<and> splitLines grownLog = [''## Log'', ''- item one''] @ [''  - nested detail'']
   \<and> deltaTextOf (priorEntry 2) grownLog = trim (joinWith nl [''  - nested detail''])
   \<and> deltaTextOf (priorEntry 3) grownLog = []"
proof -
  have a: "truthy (priorEntry 2)" "truthy (priorEntry 3)"
    "getProp (priorEntry 2) ''lastLineCount'' = Some (JNum (int (length [''## Log'', ''- item one''])))"
    "getProp (priorEntry 3) ''lastLineCount'' = Some (JNum (int 3))"
    by (simp_all add: priorEntry_def)
  have b: "splitLines grownLog = [''## Log'', ''- item one''] @ [''  - nested detail'']"
    "grownLog \<noteq> []" "lineCountOf grownLog = 3"
    by (simp_all add: grownLog_def nl_def lineCountOf_def)
  show ?thesis
    using delta_is_trimmed_tail[of grownLog "priorEntry 2" 2 "[''## Log'', ''- item one'']"
        "[''  - nested detail'']"]
      delta_is_trimmed_tail[of grownLog "priorEntry 3" 3 "[]" "[]"] a b
    by simp
qed

text \<open>
  Claim C4 as stated fails at that log: the one new line is indented, and the delta is
  the line without its indentation, not the trailing line less its blank lines.
\<close>

theorem delta_strips_indentation:
  "lineCountOf grownLog = 3
   \<and> drop 2 (splitLines grownLog) = [''  - nested detail'']
   \<and> specDelta 2 grownLog = ''  - nested detail''
   \<and> deltaTextOf (priorEntry 2) grownLog = ''- nested detail''
   \<and> deltaTextOf (priorEntry 2) grownLog \<noteq> specDelta 2 grownLog"
  by (simp add: grownLog_def nl_def lineCountOf_def specDelta_def stripBlankLines_def
      isBlankLine_def isSpace_def deltaTextOf_def priorEntry_def jsSlice_def trim_def)

section \<open>The handler and the state file\<close>

lemma readBootstrapState_total: "\<exists>state. readBootstrapState f = Inr state"
  by (cases f) (auto simp: readBootstrapState_def existsSync_def)

lemma readBootstrapState_empty: "emptyFile f \<Longrightarrow> readBootstrapState f = Inr (JObj [])"
  by (cases f) (auto simp: readBootstrapState_def existsSync_def emptyFile_def nonObject_def
      split: json.splits)

lemma cachedSnapshot_JNull: "cachedSnapshot JNull h = None"
  by (simp add: cachedSnapshot_def)

lemma snapshotStep_miss:
  assumes "readBootstrapState (stateFile e) = Inr state" "readDaily e = Inr out"
    and "cachedSnapshot (dayStateOf state (today e)) (combinedHashOf e (normalizeNewlines out)) = None"
    and "writeError e = None"
  shows "snapshotStep e =
     Inr (JStr (rebuildSnapshot (dayStateOf state (today e)) (normalizeNewlines out) (governanceContextOf e)),
          Some (setProp state (today e)
                  (newEntry e (normalizeNewlines out)
                     (rebuildSnapshot (dayStateOf state (today e)) (normalizeNewlines out)
                        (governanceContextOf e)))))"
  using assms by (simp add: snapshotStep_def Let_def writeBootstrapState_def)

lemma snapshotStep_hit:
  assumes "readBootstrapState (stateFile e) = Inr state" "readDaily e = Inr out"
    and "cachedSnapshot (dayStateOf state (today e)) (combinedHashOf e (normalizeNewlines out)) = Some snap"
  shows "snapshotStep e = Inr (snap, None)"
  using assms by (simp add: snapshotStep_def Let_def)

lemma cachedSnapshot_iff:
  "cachedSnapshot (dayStateOf state day) h = Some snap \<longleftrightarrow>
     (\<exists>entry. getProp state day = Some entry \<and> truthy entry
        \<and> getProp entry ''combinedHash'' = Some (JStr h)
        \<and> getProp entry ''snapshot'' = Some snap \<and> truthy snap)"
  by (auto simp: cachedSnapshot_def dayStateOf_def split: option.splits if_splits)

lemma snapshotStep_cases:
  assumes "readBootstrapState (stateFile e) = Inr state" "readDaily e = Inr out"
  shows "snapshotStep e =
     (case cachedSnapshot (dayStateOf state (today e)) (combinedHashOf e (normalizeNewlines out)) of
        Some snap \<Rightarrow> Inr (snap, None)
      | None \<Rightarrow>
          (case writeError e of
             Some err \<Rightarrow> Inl err
           | None \<Rightarrow>
               Inr (JStr (rebuildSnapshot (dayStateOf state (today e)) (normalizeNewlines out)
                            (governanceContextOf e)),
                    Some (setProp state (today e)
                      (newEntry e (normalizeNewlines out)
                        (rebuildSnapshot (dayStateOf state (today e)) (normalizeNewlines out)
                           (governanceContextOf e)))))))"
  using assms
  by (simp add: snapshotStep_def Let_def writeBootstrapState_def split: option.splits)

lemma later_fields:
  "eventType (e\<lparr>stateFile := f, nowIso := t\<rparr>) = eventType e"
  "today (e\<lparr>stateFile := f, nowIso := t\<rparr>) = today e"
  "stateFile (e\<lparr>stateFile := f, nowIso := t\<rparr>) = f"
  "writeError (e\<lparr>stateFile := f, nowIso := t\<rparr>) = writeError e"
  "readDaily (e\<lparr>stateFile := f, nowIso := t\<rparr>) = readDaily e"
  "governanceContextOf (e\<lparr>stateFile := f, nowIso := t\<rparr>) = governanceContextOf e"
  "combinedHashOf (e\<lparr>stateFile := f, nowIso := t\<rparr>) out = combinedHashOf e out"
  by (simp_all add: readDaily_def governanceContextOf_def combinedHashOf_def split: sum.splits)

lemma read_states:
  "readBootstrapState Absent = Inr (JObj [])"
  "readBootstrapState (Wellformed (JObj kvs)) = Inr (JObj kvs)"
  by (simp_all add: readBootstrapState_def existsSync_def)

lemma getProp_setProp_other: "d \<noteq> k \<Longrightarrow> getProp (setProp state k v) d = getProp state d"
  by (cases state) (simp_all add: update_conv')

lemma rebuild_standup: "rebuildSnapshot JNull standup [] = dailyHeader @ standup"
  by code_simp

lemma rebuild_empty: "rebuildSnapshot JNull [] [] = []"
  by code_simp

lemma dayEnv_fields:
  "eventType (dayEnv f now daily) = ''agent:bootstrap''"
  "today (dayEnv f now daily) = ''2026-01-15''"
  "nowIso (dayEnv f now daily) = now"
  "stateFile (dayEnv f now daily) = f"
  "writeError (dayEnv f now daily) = None"
  "readDaily (dayEnv f now daily) = Inr daily"
  "governanceContextOf (dayEnv f now daily) = []"
  "computeSha256 (dayEnv f now daily) = stubSha256"
  by (simp_all add: dayEnv_def readDaily_def governanceContextOf_def buildGovernanceContext_def)

lemma standup_normal: "normalizeNewlines standup = standup" "lineCountOf standup = 1"
  by (simp_all add: standup_def lineCountOf_def)

lemma newEntry_standup:
  "newEntry (dayEnv f now standup) standup (dailyHeader @ standup) = standupEntry now"
  by (simp add: newEntry_def standupEntry_def dayEnv_fields combinedHashOf_def stubSha256_def
      standup_normal)

lemma newEntry_empty: "newEntry (dayEnv f now []) [] [] = emptyEntry now"
  by (simp add: newEntry_def emptyEntry_def dayEnv_fields combinedHashOf_def stubSha256_def
      lineCountOf_def)

lemma standup_first:
  "snapshotStep (dayEnv Absent ''T1'' standup)
     = Inr (JStr (dailyHeader @ standup), Some (JObj [(''2026-01-15'', standupEntry ''T1'')]))"
  using snapshotStep_cases[of "dayEnv Absent ''T1'' standup" "JObj []" standup]
  by (simp add: dayEnv_fields read_states standup_normal dayStateOf_def cachedSnapshot_def
      rebuild_standup newEntry_standup)

lemma standup_first_handler:
  "snd (handler (dayEnv Absent ''T1'' standup) []) = Wellformed (JObj [(''2026-01-15'', standupEntry ''T1'')])"
  by (simp add: handler_def dayEnv_fields standup_first stateFileAfter_def)

lemma second_invocation:
  assumes ev: "eventType e = ''agent:bootstrap''"
    and st: "readBootstrapState (stateFile e) = Inr (JObj kvs)"
    and rd: "readDaily e = Inr out"
    and step: "snapshotStep e = Inr (snap, written)"
    and tr: "truthy snap"
  shows "snapshotStep (e\<lparr>stateFile := snd (handler e fs), nowIso := later\<rparr>) = Inr (snap, None)
     \<and> handler (e\<lparr>stateFile := snd (handler e fs), nowIso := later\<rparr>) fs = handler e fs"
proof -
  let ?h = "combinedHashOf e (normalizeNewlines out)"
  let ?e2 = "e\<lparr>stateFile := snd (handler e fs), nowIso := later\<rparr>"
  have after: "snd (handler e fs) = stateFileAfter e written"
    using ev step by (simp add: handler_def)
  have hit2: "snapshotStep ?e2 = Inr (snap, None)"
  proof (cases "cachedSnapshot (dayStateOf (JObj kvs) (today e)) ?h")
    case (Some s)
    then have "snapshotStep e = Inr (s, None)" using snapshotStep_cases[OF st rd] by simp
    then have sw: "s = snap" "written = None" using step by simp_all
    then have "stateFile ?e2 = stateFile e" using after by (simp add: stateFileAfter_def)
    then have "readBootstrapState (stateFile ?e2) = Inr (JObj kvs)" using st by simp
    then show ?thesis
      using snapshotStep_cases[of ?e2 "JObj kvs" out] rd Some sw
      by (simp add: later_fields)
  next
    case None
    let ?safe = "rebuildSnapshot (dayStateOf (JObj kvs) (today e)) (normalizeNewlines out) (governanceContextOf e)"
    let ?w = "setProp (JObj kvs) (today e) (newEntry e (normalizeNewlines out) ?safe)"
    have "writeError e = None"
      using snapshotStep_cases[OF st rd] None step by (cases "writeError e") simp_all
    then have "snapshotStep e = Inr (JStr ?safe, Some ?w)"
      using snapshotStep_cases[OF st rd] None by simp
    then have sw: "snap = JStr ?safe" "written = Some ?w" using step by simp_all
    then have f2: "stateFile ?e2 = Wellformed ?w" using after by (simp add: stateFileAfter_def)
    have r2: "readBootstrapState (stateFile ?e2) = Inr ?w"
      unfolding f2 by (simp add: readBootstrapState_def existsSync_def)
    have "cachedSnapshot (dayStateOf ?w (today e)) ?h = Some (JStr ?safe)"
      unfolding cachedSnapshot_iff using tr sw(1)
      by (simp add: update_conv' newEntry_def)
    then show ?thesis
      using snapshotStep_cases[of ?e2 ?w out] r2 rd sw(1)
      by (simp add: later_fields)
  qed
  have "handler ?e2 fs
      = (AList.update ''OBSIDIAN_DAILY.md'' (dailyArtifact snap (governanceContextOf e)) fs,
         snd (handler e fs))"
    using hit2 ev by (simp add: handler_def stateFileAfter_def later_fields)
  moreover have "handler e fs
      = (AList.update ''OBSIDIAN_DAILY.md'' (dailyArtifact snap (governanceContextOf e)) fs,
         snd (handler e fs))"
    using step ev by (simp add: handler_def)
  ultimately show ?thesis using hit2 by simp
qed

text \<open>
  Loading the state. \<^verbatim>\<open>readBootstrapState\<close> returns for every state file. It returns
  the empty mapping when the file is absent, cannot be read, holds malformed JSON, or
  holds \<^verbatim>\<open>null\<close>, a boolean, a number or a string. From such a file a bootstrap
  invocation whose daily read and state write succeed rebuilds, produces the daily
  artifact and writes a state file that holds the entry of the day and nothing else.
\<close>

theorem load_never_throws:
  "(\<exists>state. readBootstrapState f = Inr state)
   \<and> (emptyFile f \<longrightarrow> readBootstrapState f = Inr (JObj []))
   \<and> (emptyFile (stateFile e) \<and> eventType e = ''agent:bootstrap''
        \<and> readDaily e = Inr obsidianOutput \<and> writeError e = None \<longrightarrow>
        handler e bootstrapFiles =
          (AList.update ''OBSIDIAN_DAILY.md''
             (dailyArtifact
                (JStr (rebuildSnapshot JNull (normalizeNewlines obsidianOutput) (governanceContextOf e)))
                (governanceContextOf e)) bootstrapFiles,
           Wellformed (JObj [(today e,
             newEntry e (normalizeNewlines obsidianOutput)
               (rebuildSnapshot JNull (normalizeNewlines obsidianOutput) (governanceContextOf e)))])))"
proof -
  have "handler e bootstrapFiles =
          (AList.update ''OBSIDIAN_DAILY.md''
             (dailyArtifact
                (JStr (rebuildSnapshot JNull (normalizeNewlines obsidianOutput) (governanceContextOf e)))
                (governanceContextOf e)) bootstrapFiles,
           Wellformed (JObj [(today e,
             newEntry e (normalizeNewlines obsidianOutput)
               (rebuildSnapshot JNull (normalizeNewlines obsidianOutput) (governanceContextOf e)))]))"
    if a: "emptyFile (stateFile e)" "eventType e = ''agent:bootstrap''"
      "readDaily e = Inr obsidianOutput" "writeError e = None"
  proof -
    have st: "readBootstrapState (stateFile e) = Inr (JObj [])"
      using a(1) by (rule readBootstrapState_empty)
    have d: "dayStateOf (JObj []) (today e) = JNull" by (simp add: dayStateOf_def)
    show ?thesis
      using snapshotStep_miss[OF st a(3) _ a(4)] a(2)
      by (simp add: d cachedSnapshot_JNull handler_def stateFileAfter_def)
  qed
  then show ?thesis
    using readBootstrapState_total readBootstrapState_empty by blast
qed

text \<open>The theorem at a malformed state file and at a state file holding a string.\<close>

theorem load_never_throws_witness:
  "emptyFile Malformed \<and> emptyFile (Wellformed (JStr ''text'')) \<and> emptyFile Absent
   \<and> readBootstrapState Malformed = Inr (JObj [])
   \<and> readBootstrapState (Wellformed (JStr ''text'')) = Inr (JObj [])
   \<and> handler (dayEnv Malformed ''T1'' standup) [] =
       ([(''OBSIDIAN_DAILY.md'', dailyArtifact (JStr (dailyHeader @ standup)) [])],
        Wellformed (JObj [(''2026-01-15'', standupEntry ''T1'')]))"
proof -
  have a: "emptyFile Malformed" "emptyFile (Wellformed (JStr ''text''))" "emptyFile Absent"
    by (simp_all add: emptyFile_def nonObject_def)
  show ?thesis
    using a load_never_throws[of Malformed "dayEnv Malformed ''T1'' standup" standup "[]"]
      load_never_throws[of "Wellformed (JStr ''text'')" "dayEnv Malformed ''T1'' standup" standup "[]"]
    by (simp add: dayEnv_fields standup_normal rebuild_standup newEntry_standup)
qed


text \<open>
  Claim C9: loading never throws and gives the empty mapping when the file is missing,
  malformed, or holds a value that is no JSON object; the rebuild that follows writes back
  a valid state file. A JSON array is such a value, and the code lets it through:
  \<^verbatim>\<open>typeof parsed === 'object'\<close> holds for an array. The array is returned as the
  state, the entry of the day is set as a property of the array, which
  \<^verbatim>\<open>JSON.stringify\<close> does not write, and the state file after the rebuild is the array
  again, with no entry for the day.
\<close>

theorem array_state_not_persisted:
  "readBootstrapState (Wellformed (JArr [])) = Inr (JArr [])
   \<and> snapshotStep (dayEnv (Wellformed (JArr [])) ''T1'' standup)
       = Inr (JStr (dailyHeader @ standup), Some (JArr []))
   \<and> snd (handler (dayEnv (Wellformed (JArr [])) ''T1'' standup) []) = Wellformed (JArr [])
   \<and> getProp (JArr []) ''2026-01-15'' = None"
proof -
  have r: "readBootstrapState (Wellformed (JArr [])) = Inr (JArr [])"
    by (simp add: readBootstrapState_def existsSync_def)
  have s: "snapshotStep (dayEnv (Wellformed (JArr [])) ''T1'' standup)
       = Inr (JStr (dailyHeader @ standup), Some (JArr []))"
    using snapshotStep_cases[of "dayEnv (Wellformed (JArr [])) ''T1'' standup" "JArr []" standup]
    by (simp add: dayEnv_fields r standup_normal dayStateOf_def cachedSnapshot_def rebuild_standup)
  show ?thesis
    using r s by (simp add: handler_def dayEnv_fields stateFileAfter_def)
qed

text \<open>
  Claim C10. On a cache hit \<^verbatim>\<open>writeBootstrapState\<close> is not called and the state file
  is as before. On a rebuild whose write succeeds, the state written agrees with the
  loaded state at every key other than the date of the day, and when the loaded state is
  an object it holds the new entry under that date.
\<close>

theorem write_frame:
  assumes "eventType e = ''agent:bootstrap''"
    and "readBootstrapState (stateFile e) = Inr state"
    and "readDaily e = Inr obsidianOutput"
  shows
    "(cachedSnapshot (dayStateOf state (today e)) (combinedHashOf e (normalizeNewlines obsidianOutput)) \<noteq> None
        \<longrightarrow> (\<exists>snapshot. snapshotStep e = Inr (snapshot, None))
            \<and> snd (handler e bootstrapFiles) = stateFile e)
     \<and> (cachedSnapshot (dayStateOf state (today e)) (combinedHashOf e (normalizeNewlines obsidianOutput)) = None
          \<and> writeError e = None
        \<longrightarrow> (\<exists>snapshot written.
               snapshotStep e = Inr (JStr snapshot, Some written)
               \<and> snd (handler e bootstrapFiles) = Wellformed written
               \<and> (\<forall>day. day \<noteq> today e \<longrightarrow> getProp written day = getProp state day)
               \<and> (\<forall>kvs. state = JObj kvs \<longrightarrow>
                     getProp written (today e)
                       = Some (newEntry e (normalizeNewlines obsidianOutput) snapshot))))"
proof (intro conjI impI)
  assume "cachedSnapshot (dayStateOf state (today e)) (combinedHashOf e (normalizeNewlines obsidianOutput)) \<noteq> None"
  then obtain snap where
    "cachedSnapshot (dayStateOf state (today e)) (combinedHashOf e (normalizeNewlines obsidianOutput)) = Some snap"
    by blast
  then have s: "snapshotStep e = Inr (snap, None)"
    using assms(2,3) by (intro snapshotStep_hit)
  then show "\<exists>snapshot. snapshotStep e = Inr (snapshot, None)" by blast
  show "snd (handler e bootstrapFiles) = stateFile e"
    using s assms(1) by (simp add: handler_def stateFileAfter_def)
next
  assume a: "cachedSnapshot (dayStateOf state (today e)) (combinedHashOf e (normalizeNewlines obsidianOutput)) = None
          \<and> writeError e = None"
  let ?snap = "rebuildSnapshot (dayStateOf state (today e)) (normalizeNewlines obsidianOutput) (governanceContextOf e)"
  let ?w = "setProp state (today e) (newEntry e (normalizeNewlines obsidianOutput) ?snap)"
  have s: "snapshotStep e = Inr (JStr ?snap, Some ?w)"
    using a assms(2,3) by (intro snapshotStep_miss) simp_all
  have "snd (handler e bootstrapFiles) = Wellformed ?w"
    using s assms(1) by (simp add: handler_def stateFileAfter_def)
  moreover have "\<forall>day. day \<noteq> today e \<longrightarrow> getProp ?w day = getProp state day"
    by (simp add: getProp_setProp_other)
  moreover have "\<forall>kvs. state = JObj kvs \<longrightarrow>
      getProp ?w (today e) = Some (newEntry e (normalizeNewlines obsidianOutput) ?snap)"
    by (simp add: update_conv')
  ultimately show "\<exists>snapshot written.
               snapshotStep e = Inr (JStr snapshot, Some written)
               \<and> snd (handler e bootstrapFiles) = Wellformed written
               \<and> (\<forall>day. day \<noteq> today e \<longrightarrow> getProp written day = getProp state day)
               \<and> (\<forall>kvs. state = JObj kvs \<longrightarrow>
                     getProp written (today e)
                       = Some (newEntry e (normalizeNewlines obsidianOutput) snapshot))"
    using s by blast
qed

text \<open>
  The theorem at a rebuild over a state that holds the entry of the day before, and at a
  hit.
\<close>

theorem write_frame_witness:
  "eventType (dayEnv (Wellformed otherDayState) ''T1'' standup) = ''agent:bootstrap''
   \<and> readBootstrapState (stateFile (dayEnv (Wellformed otherDayState) ''T1'' standup)) = Inr otherDayState
   \<and> readDaily (dayEnv (Wellformed otherDayState) ''T1'' standup) = Inr standup
   \<and> cachedSnapshot (dayStateOf otherDayState ''2026-01-15'')
        (combinedHashOf (dayEnv (Wellformed otherDayState) ''T1'' standup) standup) = None
   \<and> (\<exists>snapshot written.
         snapshotStep (dayEnv (Wellformed otherDayState) ''T1'' standup) = Inr (JStr snapshot, Some written)
         \<and> snd (handler (dayEnv (Wellformed otherDayState) ''T1'' standup) []) = Wellformed written
         \<and> getProp written ''2026-01-14'' = Some (priorEntry 7))
   \<and> cachedSnapshot (dayStateOf (JObj [(''2026-01-15'', standupEntry ''T1'')]) ''2026-01-15'')
        (combinedHashOf (dayEnv (Wellformed (JObj [(''2026-01-15'', standupEntry ''T1'')])) ''T2'' standup)
           standup) \<noteq> None
   \<and> snd (handler (dayEnv (Wellformed (JObj [(''2026-01-15'', standupEntry ''T1'')])) ''T2'' standup) [])
       = Wellformed (JObj [(''2026-01-15'', standupEntry ''T1'')])"
proof -
  let ?e1 = "dayEnv (Wellformed otherDayState) ''T1'' standup"
  let ?e2 = "dayEnv (Wellformed (JObj [(''2026-01-15'', standupEntry ''T1'')])) ''T2'' standup"
  have a: "eventType ?e1 = ''agent:bootstrap''"
    "readBootstrapState (stateFile ?e1) = Inr otherDayState"
    "readDaily ?e1 = Inr standup"
    by (simp_all add: dayEnv_fields read_states otherDayState_def)
  have m: "cachedSnapshot (dayStateOf otherDayState ''2026-01-15'') (combinedHashOf ?e1 standup) = None"
    by (simp add: otherDayState_def dayStateOf_def cachedSnapshot_def)
  have b: "eventType ?e2 = ''agent:bootstrap''"
    "readBootstrapState (stateFile ?e2) = Inr (JObj [(''2026-01-15'', standupEntry ''T1'')])"
    "readDaily ?e2 = Inr standup"
    by (simp_all add: dayEnv_fields read_states)
  have h: "cachedSnapshot (dayStateOf (JObj [(''2026-01-15'', standupEntry ''T1'')]) ''2026-01-15'')
        (combinedHashOf ?e2 standup) \<noteq> None"
    by (simp add: dayStateOf_def cachedSnapshot_def standupEntry_def combinedHashOf_def
        dayEnv_fields stubSha256_def dailyHeader_def)
  have o: "getProp otherDayState ''2026-01-14'' = Some (priorEntry 7)"
    by (simp add: otherDayState_def)
  show ?thesis
    using write_frame[OF a, of "[]"] write_frame[OF b, of "[]"] a m h o
    by (simp add: dayEnv_fields standup_normal) force
qed

text \<open>
  Claim C3, as the code has it. The cache is hit exactly when the loaded state has a
  truthy entry for the day whose stored hash is the fresh hash and whose stored snapshot
  is truthy (not the empty string). On a hit the stored snapshot is returned as it is and
  the state file is left alone. When the state is an object and an invocation ends with a
  truthy snapshot, the next invocation on the same day with the same daily and governance
  content, at any later clock, is a hit: it returns the same files and leaves the state
  file, and with it \<^verbatim>\<open>lastUpdatedIso\<close>, as it is.
\<close>

theorem cache_hit_idempotent:
  assumes "eventType e = ''agent:bootstrap''"
    and "readBootstrapState (stateFile e) = Inr state"
    and "readDaily e = Inr obsidianOutput"
  shows
    "((\<exists>snapshot. snapshotStep e = Inr (snapshot, None)) \<longleftrightarrow>
        (\<exists>entry snapshot.
           getProp state (today e) = Some entry \<and> truthy entry
           \<and> getProp entry ''combinedHash''
               = Some (JStr (combinedHashOf e (normalizeNewlines obsidianOutput)))
           \<and> getProp entry ''snapshot'' = Some snapshot \<and> truthy snapshot))
     \<and> (\<forall>snapshot. snapshotStep e = Inr (snapshot, None) \<longrightarrow>
           getProp (dayStateOf state (today e)) ''snapshot'' = Some snapshot
           \<and> handler e bootstrapFiles =
               (AList.update ''OBSIDIAN_DAILY.md''
                  (dailyArtifact snapshot (governanceContextOf e)) bootstrapFiles,
                stateFile e))
     \<and> (\<forall>snapshot written kvs.
           snapshotStep e = Inr (snapshot, written) \<and> truthy snapshot \<and> state = JObj kvs \<longrightarrow>
           snapshotStep (e\<lparr>stateFile := snd (handler e bootstrapFiles), nowIso := later\<rparr>)
             = Inr (snapshot, None)
           \<and> handler (e\<lparr>stateFile := snd (handler e bootstrapFiles), nowIso := later\<rparr>)
               bootstrapFiles
             = handler e bootstrapFiles)"
proof (intro conjI allI impI)
  let ?h = "combinedHashOf e (normalizeNewlines obsidianOutput)"
  have c: "(\<exists>snapshot. snapshotStep e = Inr (snapshot, None)) \<longleftrightarrow>
      (\<exists>snapshot. cachedSnapshot (dayStateOf state (today e)) ?h = Some snapshot)"
    using snapshotStep_cases[OF assms(2,3)] by (auto split: option.splits)
  show "(\<exists>snapshot. snapshotStep e = Inr (snapshot, None)) \<longleftrightarrow>
        (\<exists>entry snapshot.
           getProp state (today e) = Some entry \<and> truthy entry
           \<and> getProp entry ''combinedHash'' = Some (JStr ?h)
           \<and> getProp entry ''snapshot'' = Some snapshot \<and> truthy snapshot)"
    unfolding c cachedSnapshot_iff by blast
next
  fix snapshot
  assume s: "snapshotStep e = Inr (snapshot, None)"
  then have "cachedSnapshot (dayStateOf state (today e))
      (combinedHashOf e (normalizeNewlines obsidianOutput)) = Some snapshot"
    using snapshotStep_cases[OF assms(2,3)] by (auto split: option.splits)
  then show "getProp (dayStateOf state (today e)) ''snapshot'' = Some snapshot"
    by (auto simp: cachedSnapshot_def split: option.splits if_splits)
  show "handler e bootstrapFiles =
      (AList.update ''OBSIDIAN_DAILY.md'' (dailyArtifact snapshot (governanceContextOf e)) bootstrapFiles,
       stateFile e)"
    using s assms(1) by (simp add: handler_def stateFileAfter_def)
next
  fix snapshot written kvs
  assume a: "snapshotStep e = Inr (snapshot, written) \<and> truthy snapshot \<and> state = JObj kvs"
  then have st: "readBootstrapState (stateFile e) = Inr (JObj kvs)" using assms(2) by simp
  show "snapshotStep (e\<lparr>stateFile := snd (handler e bootstrapFiles), nowIso := later\<rparr>)
          = Inr (snapshot, None)"
    using second_invocation[OF assms(1) st assms(3), where fs = bootstrapFiles and later = later] a
    by blast
  show "handler (e\<lparr>stateFile := snd (handler e bootstrapFiles), nowIso := later\<rparr>) bootstrapFiles
          = handler e bootstrapFiles"
    using second_invocation[OF assms(1) st assms(3), where fs = bootstrapFiles and later = later] a
    by blast
qed

text \<open>The theorem at two invocations on a day with a note of one line.\<close>

theorem cache_hit_idempotent_witness:
  "eventType (dayEnv Absent ''T1'' standup) = ''agent:bootstrap''
   \<and> readBootstrapState (stateFile (dayEnv Absent ''T1'' standup)) = Inr (JObj [])
   \<and> readDaily (dayEnv Absent ''T1'' standup) = Inr standup
   \<and> snapshotStep (dayEnv Absent ''T1'' standup)
       = Inr (JStr (dailyHeader @ standup), Some (JObj [(''2026-01-15'', standupEntry ''T1'')]))
   \<and> truthy (JStr (dailyHeader @ standup))
   \<and> snapshotStep (dayEnv (Wellformed (JObj [(''2026-01-15'', standupEntry ''T1'')])) ''T2'' standup)
       = Inr (JStr (dailyHeader @ standup), None)
   \<and> handler (dayEnv (Wellformed (JObj [(''2026-01-15'', standupEntry ''T1'')])) ''T2'' standup) []
       = handler (dayEnv Absent ''T1'' standup) []"
proof -
  have a: "eventType (dayEnv Absent ''T1'' standup) = ''agent:bootstrap''"
    "readBootstrapState (stateFile (dayEnv Absent ''T1'' standup)) = Inr (JObj [])"
    "readDaily (dayEnv Absent ''T1'' standup) = Inr standup"
    by (simp_all add: dayEnv_fields read_states)
  have t: "truthy (JStr (dailyHeader @ standup))" by (simp add: dailyHeader_def)
  have e2: "(dayEnv Absent ''T1'' standup)\<lparr>stateFile := snd (handler (dayEnv Absent ''T1'' standup) []),
        nowIso := ''T2''\<rparr>
      = dayEnv (Wellformed (JObj [(''2026-01-15'', standupEntry ''T1'')])) ''T2'' standup"
    by (simp add: standup_first_handler) (simp add: dayEnv_def)
  show ?thesis
    using cache_hit_idempotent[OF a, of "[]" "''T2''"] a t standup_first e2
    by simp
qed

text \<open>
  Claim C3 as stated fails when the snapshot is empty, as on a day with no note and no
  governance file. The first invocation stores an entry with the empty snapshot. At the
  second the entry is there and its hash is the fresh hash, yet the cache test
  is falsy: the handler rebuilds and writes the entry again with the new
  \<^verbatim>\<open>lastUpdatedIso\<close>.
\<close>

theorem empty_snapshot_rebuilt_again:
  "snd (handler (dayEnv Absent ''T1'' []) []) = Wellformed (JObj [(''2026-01-15'', emptyEntry ''T1'')])
   \<and> specCacheHit (JObj [(''2026-01-15'', emptyEntry ''T1'')]) ''2026-01-15''
         (combinedHashOf (dayEnv (Wellformed (JObj [(''2026-01-15'', emptyEntry ''T1'')])) ''T2'' []) [])
   \<and> snapshotStep (dayEnv (Wellformed (JObj [(''2026-01-15'', emptyEntry ''T1'')])) ''T2'' [])
       = Inr (JStr [], Some (JObj [(''2026-01-15'', emptyEntry ''T2'')]))
   \<and> snd (handler (dayEnv (Wellformed (JObj [(''2026-01-15'', emptyEntry ''T1'')])) ''T2'' []) [])
       = Wellformed (JObj [(''2026-01-15'', emptyEntry ''T2'')])
   \<and> emptyEntry ''T2'' \<noteq> emptyEntry ''T1''"
proof -
  have first: "snapshotStep (dayEnv Absent ''T1'' [])
      = Inr (JStr [], Some (JObj [(''2026-01-15'', emptyEntry ''T1'')]))"
    using snapshotStep_cases[of "dayEnv Absent ''T1'' []" "JObj []" "[]"]
    by (simp add: dayEnv_fields read_states dayStateOf_def cachedSnapshot_def
        rebuild_empty newEntry_empty)
  have d: "dayStateOf (JObj [(''2026-01-15'', emptyEntry ''T1'')]) ''2026-01-15'' = emptyEntry ''T1''"
    by (simp add: dayStateOf_def emptyEntry_def)
  have r: "rebuildSnapshot (emptyEntry ''T1'') [] [] = []"
    by (simp add: emptyEntry_def) code_simp
  have c: "cachedSnapshot (emptyEntry ''T1'') h = None" for h
    by (simp add: cachedSnapshot_def emptyEntry_def)
  have second: "snapshotStep (dayEnv (Wellformed (JObj [(''2026-01-15'', emptyEntry ''T1'')])) ''T2'' [])
      = Inr (JStr [], Some (JObj [(''2026-01-15'', emptyEntry ''T2'')]))"
    using snapshotStep_cases[of "dayEnv (Wellformed (JObj [(''2026-01-15'', emptyEntry ''T1'')])) ''T2'' []"
        "JObj [(''2026-01-15'', emptyEntry ''T1'')]" "[]"]
    by (simp add: dayEnv_fields read_states d c r newEntry_empty)
  have hit: "specCacheHit (JObj [(''2026-01-15'', emptyEntry ''T1'')]) ''2026-01-15''
         (combinedHashOf (dayEnv (Wellformed (JObj [(''2026-01-15'', emptyEntry ''T1'')])) ''T2'' []) [])"
    by (simp add: specCacheHit_def emptyEntry_def combinedHashOf_def dayEnv_fields stubSha256_def)
  show ?thesis
    using first second hit
    by (simp add: handler_def dayEnv_fields stateFileAfter_def) (simp add: emptyEntry_def)
qed

section \<open>Constraint extraction\<close>

lemma pushSection_mono: "set (criticalSections st) \<subseteq> set (pushSection st)"
  by (auto simp: pushSection_def)

lemma scanLine_sections_mono: "set (criticalSections st) \<subseteq> set (criticalSections (scanLine st l))"
  by (auto simp: scanLine_def pushSection_def Let_def split: option.splits)

lemma foldl_sections_mono:
  "set (criticalSections st) \<subseteq> set (criticalSections (foldl scanLine st ls))"
proof (induction ls arbitrary: st)
  case Nil
  then show ?case by simp
next
  case (Cons l ls)
  show ?case using scanLine_sections_mono[of st l] Cons[of "scanLine st l"] by auto
qed

lemma scan_body:
  "inCriticalSection st \<Longrightarrow> \<forall>l \<in> set body. headingMatch l = None \<Longrightarrow>
     foldl scanLine st body = st\<lparr>currentContent := currentContent st @ body\<rparr>"
proof (induction body arbitrary: st)
  case Nil
  then show ?case by simp
next
  case (Cons l body)
  have "scanLine st l = st\<lparr>currentContent := currentContent st @ [l]\<rparr>"
    using Cons.prems by (simp add: scanLine_def Let_def)
  then show ?case using Cons by simp
qed

lemma section_in_scan:
  assumes "headingMatch h = Some title" "hasCriticalKeyword h"
    and "\<forall>l \<in> set body. headingMatch l = None"
    and "rest = [] \<or> headingMatch (hd rest) \<noteq> None"
  shows "(Some title, trim (joinWith nl (h # body))) \<in> set (scanSections (pre @ [h] @ body @ rest))"
proof -
  let ?s1 = "foldl scanLine initialScan pre"
  let ?s2 = "scanLine ?s1 h"
  let ?s3 = "foldl scanLine ?s2 body"
  have s2: "?s2 = \<lparr>criticalSections = pushSection ?s1, currentSection = Some title,
      currentContent = [h], inCriticalSection = True\<rparr>"
    using assms(1,2) by (simp add: scanLine_def)
  have s3: "?s3 = ?s2\<lparr>currentContent := h # body\<rparr>"
    using scan_body[of ?s2 body] assms(3) s2 by simp
  have f: "inCriticalSection ?s3" "currentContent ?s3 = h # body" "currentSection ?s3 = Some title"
    by (subst s3, subst s2, simp)+
  have push: "(Some title, trim (joinWith nl (h # body))) \<in> set (pushSection ?s3)"
    by (simp add: pushSection_def f)
  have all: "scanSections (pre @ [h] @ body @ rest) = pushSection (foldl scanLine ?s3 rest)"
    by (simp add: scanSections_def)
  show ?thesis
  proof (cases rest)
    case Nil
    then show ?thesis using push all by simp
  next
    case (Cons r rs)
    then obtain t where "headingMatch r = Some t" using assms(4) by auto
    then have "criticalSections (scanLine ?s3 r) = pushSection ?s3"
      by (simp add: scanLine_def)
    then have "(Some title, trim (joinWith nl (h # body))) \<in> set (criticalSections (scanLine ?s3 r))"
      using push by simp
    then have "(Some title, trim (joinWith nl (h # body)))
        \<in> set (criticalSections (foldl scanLine (scanLine ?s3 r) rs))"
      using foldl_sections_mono by blast
    then show ?thesis
      using all Cons pushSection_mono by (metis foldl_Cons subsetD)
  qed
qed

lemma headingMatch_hash: "headingMatch h = Some title \<Longrightarrow> h \<noteq> [] \<and> hd h = CHR ''#''"
  by (cases h) (auto simp: headingMatch_def Let_def split: if_splits)

lemma strong_shape:
  "isStrongConstraint l \<Longrightarrow> trim l \<noteq> [] \<and> \<not> isSpace (last (trim l))"
proof -
  assume "isStrongConstraint l"
  then have "trim l \<noteq> []"
    by (auto simp: isStrongConstraint_def Let_def startsWith_def)
  then show ?thesis using trim_shape by simp
qed

lemma strong_block_suffix:
  assumes "text \<noteq> []" "strongConstraints (splitLines text) \<noteq> []"
  shows "suffix (joinWith (nl @ nl) (''## Absolute Constraints'' # unique (strongConstraints (splitLines text))))
           (extractCriticalConstraints text filename)"
proof -
  let ?u = "unique (strongConstraints (splitLines text))"
  let ?B = "''## Absolute Constraints'' # ?u"
  have u: "?u \<noteq> []" using assms(2) set_unique[of "strongConstraints (splitLines text)"]
    by (metis set_empty)
  have "last ?u \<in> set (strongConstraints (splitLines text))"
    using u set_unique last_in_set by blast
  then obtain l where "isStrongConstraint l" "last ?u = trim l"
    by (auto simp: strongConstraints_def)
  then have lu: "last ?u \<noteq> []" "\<not> isSpace (last (last ?u))"
    using strong_shape by auto
  have "last (joinWith (nl @ nl) ?B) = last (last ?u)"
    using joinWith_last[of ?B "nl @ nl"] u lu by simp
  then have l: "\<not> isSpace (last (joinWith (nl @ nl) ?B))" using lu by simp
  have h: "joinWith (nl @ nl) ?B \<noteq> []" "\<not> isSpace (hd (joinWith (nl @ nl) ?B))"
    using joinWith_hd[of "''## Absolute Constraints''" "nl @ nl" ?u] by (simp_all add: isSpace_def)
  have "suffix (joinWith (nl @ nl) ?B)
      (joinWith (nl @ nl) (map snd (scanSections (splitLines text)) @ ?B))"
    by (rule joinWith_suffix)
  then have "suffix (joinWith (nl @ nl) ?B)
      (trim (joinWith (nl @ nl) (map snd (scanSections (splitLines text)) @ ?B)))"
    using h l by (intro suffix_trim)
  then show ?thesis using assms by (simp add: extractCriticalConstraints_def Let_def)
qed

lemma section_in_output:
  assumes "text \<noteq> []" "splitLines text = pre @ [h] @ body @ rest"
    and "headingMatch h \<noteq> None" "hasCriticalKeyword h"
    and "\<forall>l \<in> set body. headingMatch l = None"
    and "rest = [] \<or> headingMatch (hd rest) \<noteq> None"
  shows "sublist (trim (joinWith nl (h # body))) (extractCriticalConstraints text filename)"
proof -
  obtain title where t: "headingMatch h = Some title" using assms(3) by auto
  let ?c = "trim (joinWith nl (h # body))"
  have "?c \<in> snd ` set (scanSections (splitLines text))"
    using section_in_scan[OF t assms(4,5,6), of pre] assms(2) by force
  then have inparts: "?c \<in> set (map snd (scanSections (splitLines text)) @ strong)" for strong
    by simp
  have "h \<noteq> []" "hd h = CHR ''#''" using headingMatch_hash[OF t] by simp_all
  then have "joinWith nl (h # body) \<noteq> []" "\<not> isSpace (hd (joinWith nl (h # body)))"
    using joinWith_hd[of h nl body] by (simp_all add: isSpace_def)
  then have ne: "?c \<noteq> []" by (rule trim_nonempty)
  then have shape: "\<not> isSpace (hd ?c)" "\<not> isSpace (last ?c)" using trim_shape by simp_all
  have "sublist ?c (joinWith (nl @ nl) (map snd (scanSections (splitLines text)) @ strong))" for strong
    using inparts by (rule sublist_joinWith)
  then have "sublist ?c (trim (joinWith (nl @ nl) (map snd (scanSections (splitLines text)) @ strong)))"
    for strong
    using ne shape by (intro sublist_trim)
  then show ?thesis using assms(1) by (simp add: extractCriticalConstraints_def Let_def)
qed

lemma pushSection_initial: "pushSection initialScan = []"
  by (simp add: pushSection_def initialScan_def)

lemma pushSection_frame:
  "pushSection (st\<lparr>criticalSections := cs @ criticalSections st\<rparr>) = cs @ pushSection st"
  by (simp add: pushSection_def)

lemma scanLine_frame:
  "scanLine (st\<lparr>criticalSections := cs @ criticalSections st\<rparr>) l
     = (scanLine st l)\<lparr>criticalSections := cs @ criticalSections (scanLine st l)\<rparr>"
  by (simp add: scanLine_def pushSection_def Let_def split: option.splits)

lemma foldl_scan_frame:
  "foldl scanLine (st\<lparr>criticalSections := cs @ criticalSections st\<rparr>) ls
     = (foldl scanLine st ls)\<lparr>criticalSections := cs @ criticalSections (foldl scanLine st ls)\<rparr>"
proof (induction ls arbitrary: st)
  case Nil
  then show ?case by simp
next
  case (Cons l ls)
  show ?case using Cons[of "scanLine st l"] by (simp add: scanLine_frame)
qed

lemma scanLine_heading_frame:
  assumes "headingMatch r \<noteq> None"
  shows "scanLine st r
     = (scanLine initialScan r)\<lparr>criticalSections := pushSection st @ criticalSections (scanLine initialScan r)\<rparr>"
  using assms by (auto simp: scanLine_def pushSection_initial)

lemma scan_split:
  assumes "rest = [] \<or> headingMatch (hd rest) \<noteq> None"
  shows "scanSections (xs @ rest) = scanSections xs @ scanSections rest"
proof (cases rest)
  case Nil
  then show ?thesis by (simp add: scanSections_def pushSection_initial)
next
  case (Cons r rs)
  then have h: "headingMatch r \<noteq> None" using assms by simp
  let ?st = "foldl scanLine initialScan xs"
  let ?i = "scanLine initialScan r"
  have "foldl scanLine (scanLine ?st r) rs
      = foldl scanLine (?i\<lparr>criticalSections := pushSection ?st @ criticalSections ?i\<rparr>) rs"
    using scanLine_heading_frame[OF h, of ?st] by simp
  also have "\<dots> = (foldl scanLine ?i rs)\<lparr>criticalSections :=
      pushSection ?st @ criticalSections (foldl scanLine ?i rs)\<rparr>"
    by (rule foldl_scan_frame)
  finally have "pushSection (foldl scanLine (scanLine ?st r) rs)
      = pushSection ?st @ pushSection (foldl scanLine ?i rs)"
    by (simp add: pushSection_frame)
  then show ?thesis by (simp add: scanSections_def Cons)
qed

lemma scan_critical_chunk:
  assumes "headingMatch h = Some title" "hasCriticalKeyword h"
    and "\<forall>l \<in> set body. headingMatch l = None"
  shows "scanSections (h # body) = [(Some title, trim (joinWith nl (h # body)))]"
proof -
  let ?s2 = "scanLine initialScan h"
  have s2: "?s2 = \<lparr>criticalSections = [], currentSection = Some title,
      currentContent = [h], inCriticalSection = True\<rparr>"
    using assms(1,2) by (simp add: scanLine_def pushSection_initial)
  have "foldl scanLine ?s2 body = ?s2\<lparr>currentContent := currentContent ?s2 @ body\<rparr>"
    using assms(3) s2 by (intro scan_body) simp_all
  then show ?thesis by (simp add: scanSections_def s2 pushSection_def)
qed

lemma scan_idle:
  "\<not> inCriticalSection st \<Longrightarrow>
   \<forall>l \<in> set body. headingMatch l = None \<and> \<not> (isBulletLine l \<and> hasCriticalKeyword l) \<Longrightarrow>
     foldl scanLine st body = st"
proof (induction body)
  case Nil
  then show ?case by simp
next
  case (Cons l body)
  have "scanLine st l = st" using Cons.prems by (auto simp: scanLine_def Let_def)
  then show ?case using Cons by simp
qed

lemma scan_plain_chunk:
  assumes "headingMatch h \<noteq> None" "\<not> hasCriticalKeyword h"
    and "\<forall>l \<in> set body. headingMatch l = None \<and> \<not> (isBulletLine l \<and> hasCriticalKeyword l)"
  shows "scanSections (h # body) = []"
proof -
  let ?s2 = "scanLine initialScan h"
  have s2: "\<not> inCriticalSection ?s2" "criticalSections ?s2 = []"
    using assms(1,2) by (auto simp: scanLine_def pushSection_initial)
  have "foldl scanLine ?s2 body = ?s2"
    using s2(1) assms(3) by (rule scan_idle)
  then show ?thesis using s2 by (simp add: scanSections_def pushSection_def)
qed

lemma scan_around_chunk:
  assumes "headingMatch h \<noteq> None" "rest = [] \<or> headingMatch (hd rest) \<noteq> None"
  shows "scanSections (pre @ [h] @ body @ rest)
     = scanSections pre @ scanSections (h # body) @ scanSections rest"
proof -
  have "scanSections (pre @ ((h # body) @ rest)) = scanSections pre @ scanSections ((h # body) @ rest)"
    using assms(1) by (intro scan_split) simp
  moreover have "scanSections ((h # body) @ rest) = scanSections (h # body) @ scanSections rest"
    using assms(2) by (rule scan_split)
  ultimately show ?thesis by simp
qed

text \<open>
  Claim C8, as the code has it. A heading line of any level ends the capture under way
  and starts a section of its own. For a heading line followed by lines that are no
  headings, up to the next heading line or the end of the document: when the heading holds
  a priority keyword, the sections found are those of the lines before it, then exactly
  one section, the trimmed text of the heading and of these lines, then those of the
  lines from the next heading on, and the output is their texts and the constraint block
  joined by blank lines; when the heading holds no keyword and none of these lines is a
  bullet with a keyword, nothing of them is captured. When there are bullets with a strong
  keyword, the output ends with the heading \<^verbatim>\<open>## Absolute Constraints\<close> followed by
  those bullets, trimmed and without duplicates, and every such bullet of the document is
  among them.
\<close>

theorem constraint_extraction:
  assumes "text \<noteq> []"
  shows
    "(splitLines text = pre @ [heading] @ body @ rest
        \<and> headingMatch heading \<noteq> None
        \<and> (\<forall>l \<in> set body. headingMatch l = None)
        \<and> (rest = [] \<or> headingMatch (hd rest) \<noteq> None)
      \<longrightarrow> (hasCriticalKeyword heading
            \<longrightarrow> scanSections (splitLines text)
                  = scanSections pre
                    @ [(headingMatch heading, trim (joinWith nl (heading # body)))]
                    @ scanSections rest
                \<and> extractCriticalConstraints text filename
                  = trim (joinWith (nl @ nl)
                      (map snd (scanSections pre)
                       @ [trim (joinWith nl (heading # body))]
                       @ map snd (scanSections rest)
                       @ (if strongConstraints (splitLines text) \<noteq> []
                          then ''## Absolute Constraints'' # unique (strongConstraints (splitLines text))
                          else [])))
                \<and> sublist (trim (joinWith nl (heading # body)))
                     (extractCriticalConstraints text filename))
          \<and> (\<not> hasCriticalKeyword heading
              \<and> (\<forall>l \<in> set body. \<not> (isBulletLine l \<and> hasCriticalKeyword l))
            \<longrightarrow> scanSections (splitLines text) = scanSections pre @ scanSections rest))
     \<and> (strongConstraints (splitLines text) \<noteq> []
      \<longrightarrow> suffix (joinWith (nl @ nl)
                   (''## Absolute Constraints'' # unique (strongConstraints (splitLines text))))
                 (extractCriticalConstraints text filename))
     \<and> distinct (unique (strongConstraints (splitLines text)))
     \<and> (\<forall>line \<in> set (splitLines text).
           isStrongConstraint line \<longrightarrow> trim line \<in> set (unique (strongConstraints (splitLines text))))"
proof -
  have d: "distinct (unique (strongConstraints (splitLines text)))"
    using distinct_uniqueFrom by (simp add: unique_def)
  have m: "\<forall>line \<in> set (splitLines text).
      isStrongConstraint line \<longrightarrow> trim line \<in> set (unique (strongConstraints (splitLines text)))"
    by (simp add: set_unique strongConstraints_def)
  have c: "scanSections (splitLines text)
             = scanSections pre @ [(headingMatch heading, trim (joinWith nl (heading # body)))]
               @ scanSections rest"
    if a: "splitLines text = pre @ [heading] @ body @ rest" "headingMatch heading \<noteq> None"
      "\<forall>l \<in> set body. headingMatch l = None" "rest = [] \<or> headingMatch (hd rest) \<noteq> None"
      "hasCriticalKeyword heading"
  proof -
    obtain title where t: "headingMatch heading = Some title" using a(2) by auto
    show ?thesis
      using scan_around_chunk[OF a(2,4), of pre body] scan_critical_chunk[OF t a(5,3)] a(1) t
      by simp
  qed
  have p: "scanSections (splitLines text) = scanSections pre @ scanSections rest"
    if a: "splitLines text = pre @ [heading] @ body @ rest" "headingMatch heading \<noteq> None"
      "\<forall>l \<in> set body. headingMatch l = None" "rest = [] \<or> headingMatch (hd rest) \<noteq> None"
      "\<not> hasCriticalKeyword heading"
      "\<forall>l \<in> set body. \<not> (isBulletLine l \<and> hasCriticalKeyword l)"
  proof -
    have "scanSections (heading # body) = []"
      using a(2,5,3,6) by (intro scan_plain_chunk) auto
    then show ?thesis using scan_around_chunk[OF a(2,4), of pre body] a(1) by simp
  qed
  have e: "extractCriticalConstraints text filename
             = trim (joinWith (nl @ nl)
                 (map snd (scanSections pre)
                  @ [trim (joinWith nl (heading # body))]
                  @ map snd (scanSections rest)
                  @ (if strongConstraints (splitLines text) \<noteq> []
                     then ''## Absolute Constraints'' # unique (strongConstraints (splitLines text))
                     else [])))"
    if a: "splitLines text = pre @ [heading] @ body @ rest" "headingMatch heading \<noteq> None"
      "\<forall>l \<in> set body. headingMatch l = None" "rest = [] \<or> headingMatch (hd rest) \<noteq> None"
      "hasCriticalKeyword heading"
    using c[OF a] assms by (simp add: extractCriticalConstraints_def Let_def)
  show ?thesis
    using c p e d m section_in_output[OF assms, of pre heading body rest filename]
      strong_block_suffix[OF assms, of filename]
    by blast
qed

text \<open>
  The theorem at a document with the section \<^verbatim>\<open>## Safety Protocols\<close> and, outside it,
  the bullet \<^verbatim>\<open>- NEVER delete user files\<close> twice, and at the sub-heading
  \<^verbatim>\<open>### Details\<close> of the document \<open>nestedDoc\<close>, under which nothing is captured.
\<close>

theorem constraint_extraction_witness:
  "rulesDoc \<noteq> []
   \<and> splitLines rulesDoc = [''# Notes'', ''some intro''] @ [''## Safety Protocols'']
        @ [''keep backups'']
        @ [''## Other'', ''- NEVER delete user files'', ''- NEVER delete user files'', ''tail'']
   \<and> headingMatch ''## Safety Protocols'' = Some ''Safety Protocols''
   \<and> hasCriticalKeyword ''## Safety Protocols''
   \<and> headingMatch ''keep backups'' = None
   \<and> headingMatch ''## Other'' \<noteq> None
   \<and> scanSections (splitLines rulesDoc)
       = scanSections [''# Notes'', ''some intro'']
         @ [(Some ''Safety Protocols'', ''## Safety Protocols'' @ nl @ ''keep backups'')]
         @ scanSections [''## Other'', ''- NEVER delete user files'', ''- NEVER delete user files'', ''tail'']
   \<and> sublist (''## Safety Protocols'' @ nl @ ''keep backups'')
        (extractCriticalConstraints rulesDoc ''SOUL.md'')
   \<and> isStrongConstraint ''- NEVER delete user files''
   \<and> unique (strongConstraints (splitLines rulesDoc)) = [''- NEVER delete user files'']
   \<and> suffix (joinWith (nl @ nl) [''## Absolute Constraints'', ''- NEVER delete user files''])
        (extractCriticalConstraints rulesDoc ''SOUL.md'')
   \<and> nestedDoc \<noteq> []
   \<and> splitLines nestedDoc = [''## Safety'', ''keep backups''] @ [''### Details'']
        @ [''rotate the logs weekly''] @ [''## Other'', ''notes'']
   \<and> headingMatch ''### Details'' \<noteq> None \<and> \<not> hasCriticalKeyword ''### Details''
   \<and> headingMatch ''rotate the logs weekly'' = None
   \<and> \<not> (isBulletLine ''rotate the logs weekly'' \<and> hasCriticalKeyword ''rotate the logs weekly'')
   \<and> scanSections (splitLines nestedDoc)
       = scanSections [''## Safety'', ''keep backups''] @ scanSections [''## Other'', ''notes'']"
proof -
  have ne: "rulesDoc \<noteq> []" "nestedDoc \<noteq> []" by code_simp+
  have sp: "splitLines rulesDoc = [''# Notes'', ''some intro''] @ [''## Safety Protocols'']
        @ [''keep backups'']
        @ [''## Other'', ''- NEVER delete user files'', ''- NEVER delete user files'', ''tail'']"
    by code_simp
  have sn: "splitLines nestedDoc = [''## Safety'', ''keep backups''] @ [''### Details'']
        @ [''rotate the logs weekly''] @ [''## Other'', ''notes'']"
    by code_simp
  have hm: "headingMatch ''## Safety Protocols'' = Some ''Safety Protocols''"
    "hasCriticalKeyword ''## Safety Protocols''"
    "headingMatch ''keep backups'' = None" "headingMatch ''## Other'' \<noteq> None"
    "isStrongConstraint ''- NEVER delete user files''"
    "headingMatch ''### Details'' \<noteq> None" "\<not> hasCriticalKeyword ''### Details''"
    "headingMatch ''rotate the logs weekly'' = None"
    "\<not> (isBulletLine ''rotate the logs weekly'' \<and> hasCriticalKeyword ''rotate the logs weekly'')"
    by code_simp+
  have tr: "trim (joinWith nl [''## Safety Protocols'', ''keep backups''])
      = ''## Safety Protocols'' @ nl @ ''keep backups''"
    by code_simp
  have u: "unique (strongConstraints (splitLines rulesDoc)) = [''- NEVER delete user files'']"
    by code_simp
  have s: "strongConstraints (splitLines rulesDoc) \<noteq> []"
    by code_simp
  have b1: "\<forall>l \<in> set [''keep backups'']. headingMatch l = None"
    "[''## Other'', ''- NEVER delete user files'', ''- NEVER delete user files'', ''tail''] = []
      \<or> headingMatch (hd [''## Other'', ''- NEVER delete user files'',
            ''- NEVER delete user files'', ''tail'']) \<noteq> None"
    "headingMatch ''## Safety Protocols'' \<noteq> None"
    using hm by simp_all
  have b2: "\<forall>l \<in> set [''rotate the logs weekly'']. headingMatch l = None"
    "[''## Other'', ''notes''] = [] \<or> headingMatch (hd [''## Other'', ''notes'']) \<noteq> None"
    "\<forall>l \<in> set [''rotate the logs weekly'']. \<not> (isBulletLine l \<and> hasCriticalKeyword l)"
    using hm by simp_all
  have r1: "scanSections (splitLines rulesDoc)
       = scanSections [''# Notes'', ''some intro'']
         @ [(headingMatch ''## Safety Protocols'',
             trim (joinWith nl (''## Safety Protocols'' # [''keep backups''])))]
         @ scanSections [''## Other'', ''- NEVER delete user files'', ''- NEVER delete user files'', ''tail'']"
    and r2: "sublist (trim (joinWith nl (''## Safety Protocols'' # [''keep backups''])))
        (extractCriticalConstraints rulesDoc ''SOUL.md'')"
    and r3: "suffix (joinWith (nl @ nl)
          (''## Absolute Constraints'' # unique (strongConstraints (splitLines rulesDoc))))
        (extractCriticalConstraints rulesDoc ''SOUL.md'')"
    using constraint_extraction[OF ne(1), of "[''# Notes'', ''some intro'']" "''## Safety Protocols''"
        "[''keep backups'']"
        "[''## Other'', ''- NEVER delete user files'', ''- NEVER delete user files'', ''tail'']"
        "''SOUL.md''"] sp b1 hm(2) s
    by blast+
  have n1: "scanSections (splitLines nestedDoc)
       = scanSections [''## Safety'', ''keep backups''] @ scanSections [''## Other'', ''notes'']"
    using constraint_extraction[OF ne(2), of "[''## Safety'', ''keep backups'']" "''### Details''"
        "[''rotate the logs weekly'']" "[''## Other'', ''notes'']" "''SOUL.md''"]
      sn b2 hm(6,7)
    by blast
  show ?thesis
    using r1[unfolded tr hm(1)] r2[unfolded tr] r3[unfolded u] n1 ne sp sn hm u
    by simp
qed

text \<open>
  Claim C8 as stated fails at a section with a sub-heading. Up to the next heading of
  equal or higher level the section \<^verbatim>\<open>## Safety\<close> has three lines after its heading;
  the capture stops at the sub-heading \<^verbatim>\<open>### Details\<close>, and the line under it is not
  in the output.
\<close>

theorem subsection_not_captured:
  "splitLines nestedDoc = [''## Safety'', ''keep backups'', ''### Details'',
     ''rotate the logs weekly'', ''## Other'', ''notes'']
   \<and> hasCriticalKeyword ''## Safety''
   \<and> specSectionBody (headingLevel ''## Safety'') (tl (splitLines nestedDoc))
       = [''keep backups'', ''### Details'', ''rotate the logs weekly'']
   \<and> extractCriticalConstraints nestedDoc ''SOUL.md'' = ''## Safety'' @ nl @ ''keep backups''
   \<and> \<not> sublist ''rotate the logs weekly'' (extractCriticalConstraints nestedDoc ''SOUL.md'')"
  by code_simp

end
